theory Spec2Isabelle
  imports Complex_Main "HOL-Library.Sublist" "HOL-Library.AList" "HOL-Library.Log_Nat"
begin

section \<open>Invoice field extraction (InvoiceRecong.py)\<close>

text \<open>
  A shallow embedding of the class \<open>InvoiceRecognition\<close> of \<open>src/InvoiceRecong.py\<close>:
  the type detector, the five field extractors, the parse entry point and the batch loop.

  \<^item> A Python \<open>str\<close> is a sequence of Unicode code points: \<open>ustring\<close> is a list of
    code points (\<open>int\<close>, the value of \<open>ord\<close>), written in hexadecimal as in the Unicode charts.
  \<^item> The dictionary \<open>invoice_info\<close> is an association list in insertion order;
    \<open>d[k] = v\<close> is \<open>AList.update\<close> (an existing key keeps its place, a new key is
    appended), \<open>d[k]\<close> is \<open>map_of\<close> and raises \<open>KeyError\<close> on a missing key.
  \<^item> An exception is a value: \<open>Raised e d\<close> carries the exception and the
    dictionary as mutated up to the raise (the extractors mutate the caller's dictionary
    in place, so an \<open>except\<close> clause of a caller sees exactly this dictionary).
  \<^item> Regular expressions are run by a small backtracking matcher with the priority order
    of Python's \<open>re\<close>: leftmost match, greedy repetition, alternatives in order.
  \<^item> The character tables of the Python runtime (decimal digits, white space,
    alphanumerics, case-insensitive equality) are not part of the repository; every
    function that needs them takes them as the parameter \<open>U\<close>.
\<close>

subsection \<open>Strings, dictionaries, exceptions\<close>

type_synonym ustring = "int list"

type_synonym dict = "(ustring \<times> ustring) list"

datatype error = KeyError | IndexError | ValueError

datatype 'a outcome = Returned 'a | Raised error dict

text \<open>The character tables of the runtime: \<open>todecimal\<close> is the decimal digit value of a
  code point (it decides \<open>\d\<close> and the digits \<open>float\<close> accepts), \<open>isspace\<close> decides
  \<open>\s\<close> and \<open>str.strip\<close>, \<open>isalnum\<close> decides \<open>\w\<close> (with the underscore), and
  \<open>ieq c x\<close> says that the pattern character \<open>c\<close> matches the text character \<open>x\<close>
  under \<open>re.IGNORECASE\<close>.\<close>

record ucd =
  todecimal :: "int \<Rightarrow> int option"
  isspace :: "int \<Rightarrow> bool"
  isalnum :: "int \<Rightarrow> bool"
  ieq :: "int \<Rightarrow> int \<Rightarrow> bool"

text \<open>\<open>text.split('\n')\<close>: the lines of a text; never empty (the last case of the
  \<open>case\<close> does not arise).\<close>

fun split_nl :: "ustring \<Rightarrow> ustring list" where
  "split_nl [] = [[]]"
| "split_nl (c # cs) =
     (if c = 0x0a then [] # split_nl cs
      else (case split_nl cs of
              line # lines \<Rightarrow> (c # line) # lines
            | [] \<Rightarrow> [[c]]))"

text \<open>\<open>line.strip()\<close>: white space removed at both ends.\<close>

definition strip :: "ucd \<Rightarrow> ustring \<Rightarrow> ustring" where
  "strip U s = rev (dropWhile (isspace U) (rev (dropWhile (isspace U) s)))"

subsection \<open>Regular expressions\<close>

text \<open>
  Every pattern of the source is a sequence of three kinds of atoms: a character class
  repeated greedily between \<open>lo\<close> and \<open>hi\<close> times (\<open>None\<close>: no upper bound), an
  alternation of literal strings tried in order, and the anchor \<open>$\<close>. A pattern is a
  pair: the atoms before the capture group and the atoms of the group, which always ends
  the pattern; a pattern without a group has no atoms before it, and \<open>re.findall\<close>
  returns the whole match, which is then the group.
\<close>

datatype atom = Cls "int \<Rightarrow> bool" nat "nat option" | Alt "ustring list" | Eol

type_synonym pattern = "atom list \<times> atom list"

text \<open>\<open>amatch as s\<close> lists, in the order the backtracking matcher tries them, the
  remainders of \<open>s\<close> after each way of matching \<open>as\<close> at the start of \<open>s\<close>.\<close>

fun amatch :: "atom list \<Rightarrow> ustring \<Rightarrow> ustring list" where
  "amatch [] s = [s]"
| "amatch (Cls p lo hi # as) s =
     (let n = length (takeWhile p s);
          m = (case hi of None \<Rightarrow> n | Some h \<Rightarrow> min n h)
      in concat (map (\<lambda>k. amatch as (drop k s)) (rev [lo ..< Suc m])))"
| "amatch (Alt ws # as) s =
     concat (map (\<lambda>w. if prefix w s then amatch as (drop (length w) s) else []) ws)"
| "amatch (Eol # as) s = (if s = [] \<or> s = [0x0a] then amatch as s else [])"

fun first_group :: "atom list \<Rightarrow> ustring list \<Rightarrow> (ustring \<times> ustring) option" where
  "first_group g [] = None"
| "first_group g (s1 # ss) =
     (case amatch g s1 of
        [] \<Rightarrow> first_group g ss
      | s2 # _ \<Rightarrow> Some (take (length s1 - length s2) s1, s2))"

text \<open>The match of a pattern at the start of \<open>s\<close>: the text of the group and the
  remainder of \<open>s\<close> after the match.\<close>

definition match_at :: "pattern \<Rightarrow> ustring \<Rightarrow> (ustring \<times> ustring) option" where
  "match_at p s = first_group (snd p) (amatch (fst p) s)"

text \<open>\<open>re.search(p, s)\<close> followed by \<open>.group(1)\<close>: the group of the leftmost match.\<close>

fun re_search :: "pattern \<Rightarrow> ustring \<Rightarrow> ustring option" where
  "re_search p [] = map_option fst (match_at p [])"
| "re_search p (c # cs) =
     (case match_at p (c # cs) of
        Some (g, r) \<Rightarrow> Some g
      | None \<Rightarrow> re_search p cs)"

text \<open>\<open>re.findall(p, s)\<close>: the groups of the successive non-overlapping matches, left
  to right. No pattern of the source matches the empty string; the branch for an empty
  match (report it and move one character on) only makes the function total.\<close>

function re_findall :: "pattern \<Rightarrow> ustring \<Rightarrow> ustring list" where
  "re_findall p s =
     (case match_at p s of
        None \<Rightarrow> (case s of [] \<Rightarrow> [] | c # cs \<Rightarrow> re_findall p cs)
      | Some (g, r) \<Rightarrow>
          if length r < length s then g # re_findall p r
          else g # (case s of [] \<Rightarrow> [] | c # cs \<Rightarrow> re_findall p cs))"
  by pat_completeness auto
termination
  by (relation "measure (\<lambda>(p, s). length s)") auto

declare re_findall.simps [simp del]

text \<open>\<open>re.match(r'^...$', s)\<close>: whether the atoms match at the start of \<open>s\<close>.\<close>

definition re_match :: "atom list \<Rightarrow> ustring \<Rightarrow> bool" where
  "re_match as s = (amatch as s \<noteq> [])"

text \<open>Building blocks of the patterns.\<close>

definition one :: "(int \<Rightarrow> bool) \<Rightarrow> atom" where
  "one p = Cls p 1 (Some 1)"

definition lit :: "ustring \<Rightarrow> atom list" where
  "lit s = map (\<lambda>c. one (\<lambda>x. x = c)) s"

definition among :: "int list \<Rightarrow> int \<Rightarrow> bool" where
  "among cs x = (x \<in> set cs)"

definition digit :: "ucd \<Rightarrow> int \<Rightarrow> bool" where
  "digit U x = (todecimal U x \<noteq> None)"

definition word :: "ucd \<Rightarrow> int \<Rightarrow> bool" where
  "word U x = (isalnum U x \<or> x = 0x5f)"

definition ascii_digit :: "int \<Rightarrow> bool" where
  "ascii_digit x = (0x30 \<le> x \<and> x \<le> 0x39)"

definition upper_or_digit :: "int \<Rightarrow> bool" where
  "upper_or_digit x = ((0x41 \<le> x \<and> x \<le> 0x5a) \<or> (0x30 \<le> x \<and> x \<le> 0x39))"

definition cjk :: "int \<Rightarrow> bool" where
  "cjk x = (0x4e00 \<le> x \<and> x \<le> 0x9fa5)"

definition letter_or_cjk :: "int \<Rightarrow> bool" where
  "letter_or_cjk x =
     ((0x41 \<le> x \<and> x \<le> 0x5a) \<or> (0x61 \<le> x \<and> x \<le> 0x7a) \<or> (0x4e00 \<le> x \<and> x \<le> 0x9fa5))"

text \<open>\<open>[\<colon>:]\<close> with the fullwidth colon U+FF1A first, as in the source.\<close>

definition colon :: "int \<Rightarrow> bool" where
  "colon = among [0xff1a, 0x3a]"

subsection \<open>The field names\<close>

definition k_number :: ustring where "k_number = [0x53d1, 0x7968, 0x53f7, 0x7801]"
definition k_date :: ustring where "k_date = [0x5f00, 0x7968, 0x65e5, 0x671f]"
definition k_buyer :: ustring where "k_buyer = [0x8d2d, 0x4e70, 0x65b9, 0x540d, 0x79f0]"
definition k_buyer_code :: ustring where
  "k_buyer_code = [0x8d2d, 0x4e70, 0x65b9, 0x7edf, 0x4e00, 0x793e, 0x4f1a, 0x4fe1, 0x7528, 0x4ee3, 0x7801]"
definition k_seller :: ustring where "k_seller = [0x9500, 0x552e, 0x65b9, 0x540d, 0x79f0]"
definition k_seller_code :: ustring where
  "k_seller_code = [0x9500, 0x552e, 0x65b9, 0x7edf, 0x4e00, 0x793e, 0x4f1a, 0x4fe1, 0x7528, 0x4ee3, 0x7801]"
definition k_item :: ustring where "k_item = [0x9879, 0x76ee, 0x540d, 0x79f0]"
definition k_spec :: ustring where "k_spec = [0x89c4, 0x683c, 0x578b, 0x53f7]"
definition k_tax :: ustring where "k_tax = [0x7a0e, 0x989d]"
definition k_total :: ustring where "k_total = [0x4ef7, 0x7a0e, 0x603b, 0x8ba1]"
definition k_issuer :: ustring where "k_issuer = [0x5f00, 0x7968, 0x4eba]"

text \<open>The eleven keys in the order \<open>parse_invoice_info\<close> creates them.\<close>

definition invoice_keys :: "ustring list" where
  "invoice_keys = [k_number, k_date, k_buyer, k_buyer_code, k_seller, k_seller_code,
                   k_item, k_spec, k_tax, k_total, k_issuer]"

subsection \<open>extract_invoice_number\<close>

text \<open>The four patterns of the source, in its order. \<open>re.IGNORECASE\<close> only changes the
  letters of \<open>Invoice\<close> and \<open>No\<close>: the other characters of the patterns have no case.\<close>

definition number_patterns :: "ucd \<Rightarrow> pattern list" where
  "number_patterns U =
     [ (lit [0x53d1, 0x7968, 0x53f7, 0x7801] @ [one colon, Cls (isspace U) 0 None],
        [Cls ascii_digit 1 None]),
       (lit [0x53d1, 0x7968, 0x4ee3, 0x7801] @ [one colon, Cls (isspace U) 0 None],
        [Cls ascii_digit 1 None]),
       (map (\<lambda>c. one (ieq U c)) [0x49, 0x6e, 0x76, 0x6f, 0x69, 0x63, 0x65]
          @ [Cls (isspace U) 0 None]
          @ map (\<lambda>c. one (ieq U c)) [0x4e, 0x6f]
          @ [Cls (among [0x2e, 0x3a]) 0 (Some 1), Cls (isspace U) 0 None],
        [Cls ascii_digit 1 None]),
       ([], [Cls (digit U) 8 (Some 20)]) ]"

text \<open>The inner loop \<open>for match in matches\<close>: the first match of 8 to 20 characters.\<close>

fun first_in_bounds :: "ustring list \<Rightarrow> ustring option" where
  "first_in_bounds [] = None"
| "first_in_bounds (m # ms) =
     (if length m \<ge> 8 \<and> length m \<le> 20 then Some m else first_in_bounds ms)"

text \<open>The outer loop \<open>for pattern in patterns\<close>.\<close>

fun number_loop :: "pattern list \<Rightarrow> ustring \<Rightarrow> dict \<Rightarrow> dict" where
  "number_loop [] text info = info"
| "number_loop (p # ps) text info =
     (case first_in_bounds (re_findall p text) of
        Some m \<Rightarrow> AList.update k_number m info
      | None \<Rightarrow> number_loop ps text info)"

definition extract_invoice_number :: "ucd \<Rightarrow> ustring \<Rightarrow> dict \<Rightarrow> dict outcome" where
  "extract_invoice_number U text info = Returned (number_loop (number_patterns U) text info)"

subsection \<open>extract_invoice_date\<close>

text \<open>\<open>\d{4}\<close>, a separator, \<open>\d{1,2}\<close>, a separator, \<open>\d{1,2}\<close> and an optional
  closing character: the shape of all five date patterns.\<close>

definition date_atoms :: "ucd \<Rightarrow> ustring \<Rightarrow> ustring \<Rightarrow> ustring \<Rightarrow> atom list" where
  "date_atoms U a b c =
     [Cls (digit U) 4 (Some 4)] @ lit a @ [Cls (digit U) 1 (Some 2)] @ lit b
       @ [Cls (digit U) 1 (Some 2)] @ lit c"

text \<open>The five patterns in the order of the source: the bare date with the characters for
  year, month and day is first, the same date after the label is second.\<close>

definition date_patterns :: "ucd \<Rightarrow> pattern list" where
  "date_patterns U =
     [ ([], date_atoms U [0x5e74] [0x6708] [0x65e5]),
       (lit [0x5f00, 0x7968, 0x65e5, 0x671f] @ [one colon, Cls (isspace U) 0 None],
        date_atoms U [0x5e74] [0x6708] [0x65e5]),
       ([], date_atoms U [0x2f] [0x2f] []),
       ([], date_atoms U [0x2d] [0x2d] []),
       ([], date_atoms U [0x2e] [0x2e] []) ]"

fun date_loop :: "pattern list \<Rightarrow> ustring \<Rightarrow> dict \<Rightarrow> dict" where
  "date_loop [] text info = info"
| "date_loop (p # ps) text info =
     (case re_search p text of
        Some g \<Rightarrow> AList.update k_date g info
      | None \<Rightarrow> date_loop ps text info)"

definition extract_invoice_date :: "ucd \<Rightarrow> ustring \<Rightarrow> dict \<Rightarrow> dict outcome" where
  "extract_invoice_date U text info = Returned (date_loop (date_patterns U) text info)"

subsection \<open>extract_company_info\<close>

definition company_patterns :: "pattern list" where
  "company_patterns =
     [ ([], [Cls cjk 4 None,
             Alt [[0x516c, 0x53f8], [0x4f01, 0x4e1a], [0x96c6, 0x56e2],
                  [0x6709, 0x9650, 0x8d23, 0x4efb, 0x516c, 0x53f8],
                  [0x80a1, 0x4efd, 0x6709, 0x9650, 0x516c, 0x53f8]]]),
       ([], [Cls letter_or_cjk 6 None,
             Alt [[0x516c, 0x53f8], [0x4f01, 0x4e1a], [0x96c6, 0x56e2],
                  [0x6709, 0x9650], [0x8d23, 0x4efb], [0x80a1, 0x4efd]]]) ]"

definition code_patterns :: "ucd \<Rightarrow> pattern list" where
  "code_patterns U =
     [ ([], [Cls upper_or_digit 15 (Some 18)]),
       (lit [0x7edf, 0x4e00, 0x793e, 0x4f1a, 0x4fe1, 0x7528, 0x4ee3, 0x7801]
          @ [one colon, Cls (isspace U) 0 None],
        [Cls upper_or_digit 15 (Some 18)]),
       (lit [0x7eb3, 0x7a0e, 0x4eba, 0x8bc6, 0x522b, 0x53f7]
          @ [one colon, Cls (isspace U) 0 None],
        [Cls upper_or_digit 15 (Some 18)]) ]"

text \<open>\<open>if len(match) > 5 and match not in companies: companies.append(match)\<close>\<close>

fun add_companies :: "ustring list \<Rightarrow> ustring list \<Rightarrow> ustring list" where
  "add_companies companies [] = companies"
| "add_companies companies (m # ms) =
     add_companies (if length m > 5 \<and> m \<notin> set companies then companies @ [m]
                    else companies) ms"

fun find_companies :: "pattern list \<Rightarrow> ustring \<Rightarrow> ustring list \<Rightarrow> ustring list" where
  "find_companies [] text companies = companies"
| "find_companies (p # ps) text companies =
     find_companies ps text (add_companies companies (re_findall p text))"

text \<open>\<open>if match not in credit_codes: credit_codes.append(match)\<close>\<close>

fun add_codes :: "ustring list \<Rightarrow> ustring list \<Rightarrow> ustring list" where
  "add_codes codes [] = codes"
| "add_codes codes (m # ms) =
     add_codes (if m \<notin> set codes then codes @ [m] else codes) ms"

fun find_codes :: "pattern list \<Rightarrow> ustring \<Rightarrow> ustring list \<Rightarrow> ustring list" where
  "find_codes [] text codes = codes"
| "find_codes (p # ps) text codes = find_codes ps text (add_codes codes (re_findall p text))"

definition buyer_keywords :: "ustring list" where
  "buyer_keywords = [[0x8d2d, 0x4e70, 0x65b9], [0x4e70, 0x65b9],
                     [0x6536, 0x7968, 0x65b9], [0x4ed8, 0x6b3e, 0x65b9]]"

definition seller_keywords :: "ustring list" where
  "seller_keywords = [[0x9500, 0x552e, 0x65b9], [0x5356, 0x65b9],
                      [0x5f00, 0x7968, 0x65b9], [0x6536, 0x6b3e, 0x65b9]]"

text \<open>The two keyword loops of the source have the same body, once for the buyer and once
  for the seller; the model writes the body once, with the role as a parameter. The state
  of the loops is the dictionary and the list \<open>companies\<close>, which the body shrinks.\<close>

datatype role = Buyer | Seller

fun role_key :: "role \<Rightarrow> ustring" where
  "role_key Buyer = k_buyer"
| "role_key Seller = k_seller"

type_synonym roles = "dict \<times> ustring list"

text \<open>\<open>for company in companies\<close> on one line \<open>lines[j]\<close>: the first company that
  occurs in the line is assigned if the role is still empty, and removed from
  \<open>companies\<close>; the \<open>break\<close> ends the loop. The role is read only when the company
  occurs in the line (\<open>and\<close> evaluates its right operand only then). The seller loop
  guards the removal with \<open>if company in companies\<close>, the buyer loop does not, and
  \<open>list.remove\<close> raises \<open>ValueError\<close> on an absent element.\<close>

fun claim :: "role \<Rightarrow> ustring \<Rightarrow> ustring list \<Rightarrow> roles \<Rightarrow> roles outcome" where
  "claim r line_j [] (info, companies) = Returned (info, companies)"
| "claim r line_j (company # rest) (info, companies) =
     (if sublist company line_j then
        (case map_of info (role_key r) of
           None \<Rightarrow> Raised KeyError info
         | Some v \<Rightarrow>
             if v = [] then
               (if company \<in> set companies
                then Returned (AList.update (role_key r) company info, remove1 company companies)
                else (case r of
                        Buyer \<Rightarrow> Raised ValueError (AList.update (role_key r) company info)
                      | Seller \<Rightarrow> Returned (AList.update (role_key r) company info, companies)))
             else claim r line_j rest (info, companies))
      else claim r line_j rest (info, companies))"

text \<open>\<open>for j in range(max(0, i-3), min(len(lines), i+5))\<close>\<close>

definition window :: "nat \<Rightarrow> nat \<Rightarrow> nat list" where
  "window i n = [nat (max 0 (int i - 3)) ..< min n (i + 5)]"

fun near :: "role \<Rightarrow> ustring list \<Rightarrow> nat list \<Rightarrow> roles \<Rightarrow> roles outcome" where
  "near r lines [] st = Returned st"
| "near r lines (j # js) (info, companies) =
     (if j < length lines then
        (case claim r (lines ! j) companies (info, companies) of
           Raised e d \<Rightarrow> Raised e d
         | Returned st \<Rightarrow> near r lines js st)
      else Raised IndexError info)"

text \<open>\<open>for keyword in buyer_keywords: if keyword in line: ...\<close>\<close>

fun keyword_loop ::
  "role \<Rightarrow> ustring list \<Rightarrow> nat \<Rightarrow> ustring \<Rightarrow> ustring list \<Rightarrow> roles \<Rightarrow> roles outcome" where
  "keyword_loop r lines i line [] st = Returned st"
| "keyword_loop r lines i line (keyword # rest) st =
     (if sublist keyword line then
        (case near r lines (window i (length lines)) st of
           Raised e d \<Rightarrow> Raised e d
         | Returned st1 \<Rightarrow> keyword_loop r lines i line rest st1)
      else keyword_loop r lines i line rest st)"

text \<open>\<open>for i, line in enumerate(lines)\<close>: on each line the buyer keywords, then the
  seller keywords, then the next line. The list of numbered lines is \<open>enumerate 0 lines\<close>.\<close>

fun line_loop :: "ustring list \<Rightarrow> (nat \<times> ustring) list \<Rightarrow> roles \<Rightarrow> roles outcome" where
  "line_loop lines [] st = Returned st"
| "line_loop lines ((i, line) # rest) st =
     (case keyword_loop Buyer lines i line buyer_keywords st of
        Raised e d \<Rightarrow> Raised e d
      | Returned st1 \<Rightarrow>
          (case keyword_loop Seller lines i line seller_keywords st1 of
             Raised e d \<Rightarrow> Raised e d
           | Returned st2 \<Rightarrow> line_loop lines rest st2))"

text \<open>The companies not assigned yet, in order: the first becomes the buyer if the buyer
  is still empty, the second becomes the seller if the seller is still empty. The list
  comprehension reads the two roles once for every company.\<close>

definition assign_remaining :: "roles \<Rightarrow> dict outcome" where
  "assign_remaining st =
     (case st of (info, companies) \<Rightarrow>
        (case (if companies = [] then Some []
               else (case (map_of info k_buyer, map_of info k_seller) of
                       (Some b, Some s) \<Rightarrow> Some (filter (\<lambda>c. c \<noteq> b \<and> c \<noteq> s) companies)
                     | _ \<Rightarrow> None)) of
           None \<Rightarrow> Raised KeyError info
         | Some remaining_companies \<Rightarrow>
             if remaining_companies = [] then Returned info
             else
               (case map_of info k_buyer of
                  None \<Rightarrow> Raised KeyError info
                | Some b \<Rightarrow>
                    let info1 = (if b = [] then AList.update k_buyer (remaining_companies ! 0) info
                                 else info)
                    in (case map_of info1 k_seller of
                          None \<Rightarrow> Raised KeyError info1
                        | Some s \<Rightarrow>
                            Returned
                              (if s = [] \<and> length remaining_companies > 1
                               then AList.update k_seller (remaining_companies ! 1) info1
                               else info1)))))"

text \<open>The credit codes by position: the first to the buyer, the second to the seller.\<close>

definition assign_codes :: "ustring list \<Rightarrow> dict \<Rightarrow> dict outcome" where
  "assign_codes credit_codes info =
     (if credit_codes = [] then Returned info
      else
        (case map_of info k_buyer_code of
           None \<Rightarrow> Raised KeyError info
         | Some b \<Rightarrow>
             let info1 = (if b = [] then AList.update k_buyer_code (credit_codes ! 0) info
                          else info)
             in if length credit_codes > 1 then
                  (case map_of info1 k_seller_code of
                     None \<Rightarrow> Raised KeyError info1
                   | Some s \<Rightarrow>
                       Returned (if s = [] then AList.update k_seller_code (credit_codes ! 1) info1
                                 else info1))
                else Returned info1))"

definition extract_company_info :: "ucd \<Rightarrow> ustring \<Rightarrow> dict \<Rightarrow> dict outcome" where
  "extract_company_info U text info =
     (let lines = split_nl text;
          companies = find_companies company_patterns text [];
          credit_codes = find_codes (code_patterns U) text []
      in case line_loop lines (enumerate 0 lines) (info, companies) of
           Raised e d \<Rightarrow> Raised e d
         | Returned st \<Rightarrow>
             (case assign_remaining st of
                Raised e d \<Rightarrow> Raised e d
              | Returned info1 \<Rightarrow> assign_codes credit_codes info1))"

subsection \<open>Floating-point amounts\<close>

text \<open>
  An amount is a Python \<open>float\<close>, an IEEE 754 double. The digits of an amount carry no
  sign, so the values that arise are the non-negative doubles and the infinity that
  \<open>float\<close> returns for a number of more than 308 digits. \<open>Finite m e\<close> is the double
  \<open>m * 2 ^ e\<close> with the mantissa \<open>m\<close>; comparisons are by value.
\<close>

datatype pyfloat = Finite int int | Infinity

text \<open>\<open>x < y\<close> and \<open>x <= y\<close> on floats.\<close>

fun flt :: "pyfloat \<Rightarrow> pyfloat \<Rightarrow> bool" where
  "flt (Finite m1 e1) (Finite m2 e2) =
     (m1 * 2 ^ nat (e1 - min e1 e2) < m2 * 2 ^ nat (e2 - min e1 e2))"
| "flt (Finite m e) Infinity = True"
| "flt Infinity y = False"

definition fle :: "pyfloat \<Rightarrow> pyfloat \<Rightarrow> bool" where
  "fle x y = (\<not> flt y x)"

text \<open>\<open>x == y\<close> on floats, which also decides \<open>x in xs\<close>.\<close>

definition feq :: "pyfloat \<Rightarrow> pyfloat \<Rightarrow> bool" where
  "feq x y = (\<not> flt x y \<and> \<not> flt y x)"

text \<open>The quotient \<open>num / den\<close> (\<open>den > 0\<close>) rounded to the nearest integer, ties to
  the even one.\<close>

definition round_div :: "int \<Rightarrow> int \<Rightarrow> int" where
  "round_div num den =
     (let f = num div den; r = num mod den
      in if 2 * r < den then f else if den < 2 * r then f + 1
         else if even f then f else f + 1)"

text \<open>The exponent of the leading bit of \<open>n / d\<close> for positive \<open>n\<close> and \<open>d\<close>.\<close>

definition ilog2 :: "int \<Rightarrow> int \<Rightarrow> int" where
  "ilog2 n d = (if d \<le> n then bitlen (n div d) - 1 else - bitlen ((d + n - 1) div n - 1))"

text \<open>The double nearest to the fraction \<open>n / d\<close> (\<open>n \<ge> 0\<close>, \<open>d > 0\<close>), ties to the
  even mantissa: 53 bits of mantissa, the least exponent \<open>-1074\<close> of the subnormal
  numbers, and infinity from \<open>2 ^ 1024\<close> on.\<close>

definition float_of_frac :: "int \<Rightarrow> int \<Rightarrow> pyfloat" where
  "float_of_frac n d =
     (if n \<le> 0 then Finite 0 0
      else let e = max (ilog2 n d - 52) (- 1074);
               m = (if 0 \<le> e then round_div n (d * 2 ^ nat e)
                    else round_div (n * 2 ^ nat (- e)) d)
           in if 1024 < bitlen m + e then Infinity else Finite m e)"

text \<open>The value of a string of decimal digits, \<open>None\<close> if a character is no digit.\<close>

fun digits_value :: "ucd \<Rightarrow> int \<Rightarrow> ustring \<Rightarrow> int option" where
  "digits_value U acc [] = Some acc"
| "digits_value U acc (c # cs) =
     (case todecimal U c of
        None \<Rightarrow> None
      | Some d \<Rightarrow> digits_value U (10 * acc + d) cs)"

text \<open>\<open>float(s)\<close> on the strings the call sites pass: decimal digits with at most one
  point and at least one digit, correctly rounded; \<open>None\<close> is the \<open>ValueError\<close> for
  any other string of digits and points.\<close>

definition py_float :: "ucd \<Rightarrow> ustring \<Rightarrow> pyfloat option" where
  "py_float U s =
     (let ip = takeWhile (\<lambda>c. c \<noteq> 0x2e) s;
          fp = drop 1 (dropWhile (\<lambda>c. c \<noteq> 0x2e) s)
      in if ip = [] \<and> fp = [] then None
         else (case (digits_value U 0 ip, digits_value U 0 fp) of
                 (Some a, Some b) \<Rightarrow>
                   Some (float_of_frac (a * 10 ^ length fp + b) (10 ^ length fp))
               | _ \<Rightarrow> None))"

function digits_of :: "int \<Rightarrow> ustring" where
  "digits_of n = (if n < 10 then [0x30 + n] else digits_of (n div 10) @ [0x30 + n mod 10])"
  by pat_completeness auto
termination
  by (relation "measure nat") auto

declare digits_of.simps [simp del]

text \<open>\<open>f"{x:.2f}"\<close>: the value rounded to two decimals, ties to even; \<open>inf\<close> for
  infinity.\<close>

definition fmt2 :: "pyfloat \<Rightarrow> ustring" where
  "fmt2 x =
     (case x of
        Infinity \<Rightarrow> [0x69, 0x6e, 0x66]
      | Finite m e \<Rightarrow>
          let n = (if 0 \<le> e then m * 2 ^ nat e * 100
                   else round_div (m * 100) (2 ^ nat (- e)))
          in digits_of (n div 100) @ [0x2e, 0x30 + n mod 100 div 10, 0x30 + n mod 10])"

text \<open>\<open>amounts.sort()\<close> and \<open>sorted(amounts)\<close>: a stable sort by \<open><\<close>.\<close>

fun py_insort :: "pyfloat \<Rightarrow> pyfloat list \<Rightarrow> pyfloat list" where
  "py_insort x [] = [x]"
| "py_insort x (y # ys) = (if flt y x then y # py_insort x ys else x # y # ys)"

definition py_sort :: "pyfloat list \<Rightarrow> pyfloat list" where
  "py_sort xs = foldr py_insort xs []"

text \<open>\<open>max(amounts)\<close>: the first greatest element; \<open>None\<close> is the \<open>ValueError\<close> on
  an empty list.\<close>

fun py_max :: "pyfloat list \<Rightarrow> pyfloat option" where
  "py_max [] = None"
| "py_max (x # xs) = Some (foldl (\<lambda>m y. if flt m y then y else m) x xs)"

subsection \<open>extract_amount_info\<close>

text \<open>A currency sign, the yen sign U+00A5 or the fullwidth yen sign U+FFE5, followed by
  the group \<open>([\d,]+\.?\d*)\<close>.\<close>

definition amount_pattern :: "ucd \<Rightarrow> pattern" where
  "amount_pattern U =
     ([one (among [0xa5, 0xffe5])],
      [Cls (\<lambda>x. digit U x \<or> x = 0x2c) 1 None, Cls (\<lambda>x. x = 0x2e) 0 (Some 1),
       Cls (digit U) 0 None])"

text \<open>The amounts of one line: every match with its commas removed and converted; a
  match that \<open>float\<close> rejects is skipped.\<close>

definition line_amounts :: "ucd \<Rightarrow> ustring \<Rightarrow> pyfloat list" where
  "line_amounts U line =
     List.map_filter (\<lambda>m. py_float U (filter (\<lambda>c. c \<noteq> 0x2c) m))
       (re_findall (amount_pattern U) (strip U line))"

text \<open>The list \<open>amounts\<close> before it is sorted: the amounts of all lines in line order.\<close>

definition amount_pool :: "ucd \<Rightarrow> ustring \<Rightarrow> pyfloat list" where
  "amount_pool U text = concat (map (line_amounts U) (split_nl text))"

text \<open>\<open>100 <= amount <= 1000\<close>\<close>

definition in_band :: "pyfloat \<Rightarrow> bool" where
  "in_band amount = (fle (Finite 100 0) amount \<and> fle amount (Finite 1000 0))"

text \<open>\<open>for amount in amounts: if 100 <= amount <= 1000: ...; break\<close>\<close>

fun tax_loop :: "pyfloat list \<Rightarrow> dict \<Rightarrow> dict" where
  "tax_loop [] info = info"
| "tax_loop (amount # rest) info =
     (if in_band amount then AList.update k_tax (fmt2 amount) info else tax_loop rest info)"

text \<open>The first half of the function: the list is sorted in place, the total is its
  maximum and the tax is the first element of the sorted list in the band.\<close>

definition classify_amounts :: "pyfloat list \<Rightarrow> dict \<Rightarrow> dict outcome" where
  "classify_amounts amounts info =
     (if amounts = [] then Returned info
      else let sorted = py_sort amounts
           in if length sorted \<ge> 1 then
                (case py_max sorted of
                   None \<Rightarrow> Raised ValueError info
                 | Some mx \<Rightarrow> Returned (tax_loop sorted (AList.update k_total (fmt2 mx) info)))
              else Returned (tax_loop sorted info))"

text \<open>The second half: the three literal amounts \<open>\<yen>3992.00\<close>, \<open>\<yen>225.96\<close> and
  \<open>\<yen>3766.04\<close> (with U+00A5 only) are searched in the whole text.\<close>

definition specific_patterns :: "pattern list" where
  "specific_patterns =
     [ (lit [0xa5], lit [0x33, 0x39, 0x39, 0x32, 0x2e, 0x30, 0x30]),
       (lit [0xa5], lit [0x32, 0x32, 0x35, 0x2e, 0x39, 0x36]),
       (lit [0xa5], lit [0x33, 0x37, 0x36, 0x36, 0x2e, 0x30, 0x34]) ]"

text \<open>\<open>found_amounts.append(float(match))\<close> for every match of every pattern; this
  \<open>float\<close> is outside any \<open>try\<close>, so its \<open>ValueError\<close> (\<open>None\<close>) leaves the
  function.\<close>

fun floats_of :: "ucd \<Rightarrow> ustring list \<Rightarrow> pyfloat list \<Rightarrow> pyfloat list option" where
  "floats_of U [] found = Some found"
| "floats_of U (m # ms) found =
     (case py_float U m of
        None \<Rightarrow> None
      | Some x \<Rightarrow> floats_of U ms (found @ [x]))"

fun found_amounts :: "ucd \<Rightarrow> pattern list \<Rightarrow> ustring \<Rightarrow> pyfloat list \<Rightarrow> pyfloat list option" where
  "found_amounts U [] text found = Some found"
| "found_amounts U (p # ps) text found =
     (case floats_of U (re_findall p text) found of
        None \<Rightarrow> None
      | Some found1 \<Rightarrow> found_amounts U ps text found1)"

definition apply_specific :: "pyfloat list \<Rightarrow> dict \<Rightarrow> dict outcome" where
  "apply_specific found info =
     (if found = [] then Returned info
      else
        let found_sorted = py_sort found
        in (case (if list_ex (feq (float_of_frac 3992 1)) found_sorted
                  then Some (AList.update k_total [0x33, 0x39, 0x39, 0x32, 0x2e, 0x30, 0x30] info)
                  else map_option (\<lambda>mx. AList.update k_total (fmt2 mx) info)
                         (py_max found_sorted)) of
              None \<Rightarrow> Raised ValueError info
            | Some info1 \<Rightarrow>
                Returned
                  (if list_ex (feq (float_of_frac 22596 100)) found_sorted
                   then AList.update k_tax [0x32, 0x32, 0x35, 0x2e, 0x39, 0x36] info1
                   else if length found_sorted > 1 then
                     (let sorted_amounts = py_sort found_sorted
                      in if length sorted_amounts \<ge> 2
                         then AList.update k_tax (fmt2 (sorted_amounts ! 1)) info1
                         else info1)
                   else info1)))"

definition extract_amount_info :: "ucd \<Rightarrow> ustring \<Rightarrow> dict \<Rightarrow> dict outcome" where
  "extract_amount_info U text info =
     (case classify_amounts (amount_pool U text) info of
        Raised e d \<Rightarrow> Raised e d
      | Returned info1 \<Rightarrow>
          (case found_amounts U specific_patterns text [] of
             None \<Rightarrow> Raised ValueError info1
           | Some found \<Rightarrow> apply_specific found info1))"

subsection \<open>extract_other_fields\<close>

text \<open>The item name: the first line with an asterisk and one of three keywords.\<close>

fun item_loop :: "ucd \<Rightarrow> ustring list \<Rightarrow> dict \<Rightarrow> dict" where
  "item_loop U [] info = info"
| "item_loop U (line # rest) info =
     (if sublist [0x2a] line
         \<and> (sublist [0x670d, 0x52a1] line \<or> sublist [0x8d39] line
              \<or> sublist [0x9500, 0x552e] line)
      then AList.update k_item (strip U line) info
      else item_loop U rest info)"

definition excluded_names :: "ustring list" where
  "excluded_names =
     [[0x5f00, 0x7968, 0x4eba], [0x590d, 0x6838], [0x6536, 0x6b3e], [0x9500, 0x552e],
      [0x8d2d, 0x4e70], [0x5408, 0x8ba1], [0x7a0e, 0x989d], [0x91d1, 0x989d],
      [0x5355, 0x4ef7], [0x6570, 0x91cf]]"

text \<open>A line that is a name: the stripped line is two to four characters of
  \<open>[\u4e00-\u9fa5]\<close> and nothing else, it is no excluded word and contains none.\<close>

definition name_line :: "ustring \<Rightarrow> bool" where
  "name_line line_clean =
     (re_match [Cls cjk 2 (Some 4), Eol] line_clean
      \<and> line_clean \<notin> set excluded_names
      \<and> \<not> list_ex (\<lambda>ex. sublist ex line_clean) excluded_names)"

fun issuer_loop :: "ucd \<Rightarrow> ustring list \<Rightarrow> dict \<Rightarrow> dict" where
  "issuer_loop U [] info = info"
| "issuer_loop U (line # rest) info =
     (if name_line (strip U line) then AList.update k_issuer (strip U line) info
      else issuer_loop U rest info)"

text \<open>The fallback when the issuer is still empty: a literal name, then its first
  character followed by \<open>\w+\<close>, then any two or three characters of
  \<open>[\u4e00-\u9fa5]\<close>, each searched in the whole text.\<close>

definition name_patterns :: "ucd \<Rightarrow> pattern list" where
  "name_patterns U =
     [ ([], lit [0x5f20, 0x82f1, 0x8c6a]),
       ([], lit [0x5f20] @ [Cls (word U) 1 None]),
       ([], [Cls cjk 2 (Some 3)]) ]"

text \<open>\<open>for match in matches: if len(match) >= 2 and len(match) <= 4: ...; break\<close>\<close>

fun first_name :: "ustring list \<Rightarrow> ustring option" where
  "first_name [] = None"
| "first_name (m # ms) =
     (if length m \<ge> 2 \<and> length m \<le> 4 then Some m else first_name ms)"

text \<open>\<open>for pattern in name_patterns\<close>, left as soon as the issuer is not empty.\<close>

fun name_loop :: "pattern list \<Rightarrow> ustring \<Rightarrow> dict \<Rightarrow> dict outcome" where
  "name_loop [] text info = Returned info"
| "name_loop (p # ps) text info =
     (let info1 = (case first_name (re_findall p text) of
                     Some m \<Rightarrow> AList.update k_issuer m info
                   | None \<Rightarrow> info)
      in case map_of info1 k_issuer of
           None \<Rightarrow> Raised KeyError info1
         | Some v \<Rightarrow> if v \<noteq> [] then Returned info1 else name_loop ps text info1)"

definition spec_keywords :: "ustring list" where
  "spec_keywords = [[0x6b21], [0x4e2a], [0x4ef6], [0x53f0], [0x5957], [0x5f20], [0x4efd]]"

fun spec_loop :: "ustring list \<Rightarrow> ustring \<Rightarrow> dict \<Rightarrow> dict" where
  "spec_loop [] text info = info"
| "spec_loop (keyword # rest) text info =
     (if sublist keyword text then AList.update k_spec keyword info
      else spec_loop rest text info)"

definition extract_other_fields :: "ucd \<Rightarrow> ustring \<Rightarrow> dict \<Rightarrow> dict outcome" where
  "extract_other_fields U text info =
     (let lines = split_nl text;
          info1 = item_loop U lines info;
          info2 = issuer_loop U lines info1
      in case map_of info2 k_issuer of
           None \<Rightarrow> Raised KeyError info2
         | Some v \<Rightarrow>
             (case (if v = [] then name_loop (name_patterns U) text info2 else Returned info2) of
                Raised e d \<Rightarrow> Raised e d
              | Returned info3 \<Rightarrow> Returned (spec_loop spec_keywords text info3)))"

subsection \<open>The parse entry point\<close>

datatype invoice_type = Standard | Shanghai | Complex | Generic

definition detect_invoice_type :: "ustring \<Rightarrow> invoice_type" where
  "detect_invoice_type text =
     (if sublist [0x4e0a, 0x6d77, 0x589e, 0x503c, 0x7a0e] text then Shanghai
      else if sublist [0x673a, 0x5668, 0x7f16, 0x53f7] text \<and> sublist [0x6821, 0x9a8c, 0x7801] text
        then Complex
      else if sublist [0x7535, 0x5b50, 0x53d1, 0x7968, 0xff08, 0x666e, 0x901a, 0x53d1, 0x7968, 0xff09] text
        then Standard
      else Generic)"

text \<open>The try block of \<open>parse_generic_invoice\<close>: the five extractors in turn. Its
  \<open>except Exception\<close> clause returns \<open>invoice_info\<close>, the dictionary as the extractors
  have mutated it so far; so the function always returns.\<close>

definition parse_generic_invoice :: "ucd \<Rightarrow> ustring \<Rightarrow> dict \<Rightarrow> dict outcome" where
  "parse_generic_invoice U text info =
     (case extract_invoice_number U text info of
        Raised e d \<Rightarrow> Returned d
      | Returned info1 \<Rightarrow>
     (case extract_invoice_date U text info1 of
        Raised e d \<Rightarrow> Returned d
      | Returned info2 \<Rightarrow>
     (case extract_company_info U text info2 of
        Raised e d \<Rightarrow> Returned d
      | Returned info3 \<Rightarrow>
     (case extract_amount_info U text info3 of
        Raised e d \<Rightarrow> Returned d
      | Returned info4 \<Rightarrow>
     (case extract_other_fields U text info4 of
        Raised e d \<Rightarrow> Returned d
      | Returned info5 \<Rightarrow> Returned info5)))))"

definition parse_standard_invoice :: "ucd \<Rightarrow> ustring \<Rightarrow> dict \<Rightarrow> dict outcome" where
  "parse_standard_invoice U text info = parse_generic_invoice U text info"

definition parse_complex_invoice :: "ucd \<Rightarrow> ustring \<Rightarrow> dict \<Rightarrow> dict outcome" where
  "parse_complex_invoice U text info = parse_generic_invoice U text info"

text \<open>\<open>parse_shanghai_invoice\<close>: near a line with one of two labels, the first run of
  eight or more digits of each line \<open>lines[j]\<close>, \<open>j\<close> from \<open>max(0, i-2)\<close> to
  \<open>min(len(lines), i+3)\<close>, becomes the number if the number is still empty. This loop
  is outside any \<open>try\<close>.\<close>

fun shanghai_near :: "ucd \<Rightarrow> ustring list \<Rightarrow> nat list \<Rightarrow> dict \<Rightarrow> dict outcome" where
  "shanghai_near U lines [] info = Returned info"
| "shanghai_near U lines (j # js) info =
     (if j < length lines then
        (case re_search ([], [Cls (digit U) 8 None]) (lines ! j) of
           None \<Rightarrow> shanghai_near U lines js info
         | Some g \<Rightarrow>
             if length g \<ge> 8 then
               (case map_of info k_number of
                  None \<Rightarrow> Raised KeyError info
                | Some v \<Rightarrow>
                    shanghai_near U lines js
                      (if v = [] then AList.update k_number g info else info))
             else shanghai_near U lines js info)
      else Raised IndexError info)"

fun shanghai_loop :: "ucd \<Rightarrow> ustring list \<Rightarrow> (nat \<times> ustring) list \<Rightarrow> dict \<Rightarrow> dict outcome" where
  "shanghai_loop U lines [] info = Returned info"
| "shanghai_loop U lines ((i, line) # rest) info =
     (if sublist [0x53d1, 0x7968, 0x53f7, 0x7801] (strip U line)
         \<or> sublist [0x53d1, 0x7968, 0x4ee3, 0x7801] (strip U line)
      then
        (case shanghai_near U lines
                [nat (max 0 (int i - 2)) ..< min (length lines) (i + 3)] info of
           Raised e d \<Rightarrow> Raised e d
         | Returned info1 \<Rightarrow> shanghai_loop U lines rest info1)
      else shanghai_loop U lines rest info)"

definition parse_shanghai_invoice :: "ucd \<Rightarrow> ustring \<Rightarrow> dict \<Rightarrow> dict outcome" where
  "parse_shanghai_invoice U text info =
     (let lines = split_nl text
      in case shanghai_loop U lines (enumerate 0 lines) info of
           Raised e d \<Rightarrow> Raised e d
         | Returned info1 \<Rightarrow> parse_generic_invoice U text info1)"

text \<open>\<open>parse_invoice_info\<close>: a fresh dictionary with the eleven keys, each with the
  empty string, handed to the parser of the detected type.\<close>

definition parse_invoice_info :: "ucd \<Rightarrow> ustring \<Rightarrow> dict outcome" where
  "parse_invoice_info U text =
     (let invoice_info = map (\<lambda>k. (k, [])) invoice_keys
      in case detect_invoice_type text of
           Standard \<Rightarrow> parse_standard_invoice U text invoice_info
         | Shanghai \<Rightarrow> parse_shanghai_invoice U text invoice_info
         | Complex \<Rightarrow> parse_complex_invoice U text invoice_info
         | Generic \<Rightarrow> parse_generic_invoice U text invoice_info)"

subsection \<open>process_invoices\<close>



subsection \<open>Character tables for the examples\<close>

text \<open>
  The entries of the runtime's tables for the characters of the examples below: the ASCII
  and fullwidth digits, Python's white space up to U+3000, the ASCII letters and digits
  and the range U+4E00 to U+9FA5 as alphanumerics, and the case-insensitive pairs of the
  ASCII letters with the four characters U+0130, U+0131, U+017F and U+212A that
  \<open>re.IGNORECASE\<close> adds to \<open>i\<close>, \<open>s\<close> and \<open>k\<close>. The examples use only ASCII,
  the two yen signs, the fullwidth colon and characters of U+4E00 to U+9FA5.
\<close>

definition lower_ascii :: "int \<Rightarrow> int" where
  "lower_ascii x =
     (if 0x41 \<le> x \<and> x \<le> 0x5a then x + 0x20
      else if x = 0x130 \<or> x = 0x131 then 0x69
      else if x = 0x17f then 0x73
      else if x = 0x212a then 0x6b
      else x)"

definition ucd_examples :: ucd where
  "ucd_examples =
     \<lparr> todecimal = (\<lambda>x. if 0x30 \<le> x \<and> x \<le> 0x39 then Some (x - 0x30)
                          else if 0xff10 \<le> x \<and> x \<le> 0xff19 then Some (x - 0xff10)
                          else None),
       isspace = (\<lambda>x. (0x09 \<le> x \<and> x \<le> 0x0d) \<or> (0x1c \<le> x \<and> x \<le> 0x20)
                        \<or> x = 0x85 \<or> x = 0xa0 \<or> x = 0x1680
                        \<or> (0x2000 \<le> x \<and> x \<le> 0x200a) \<or> x = 0x2028 \<or> x = 0x2029
                        \<or> x = 0x202f \<or> x = 0x205f \<or> x = 0x3000),
       isalnum = (\<lambda>x. (0x30 \<le> x \<and> x \<le> 0x39) \<or> (0x41 \<le> x \<and> x \<le> 0x5a)
                        \<or> (0x61 \<le> x \<and> x \<le> 0x7a) \<or> (0x4e00 \<le> x \<and> x \<le> 0x9fa5)
                        \<or> (0xff10 \<le> x \<and> x \<le> 0xff19)),
       ieq = (\<lambda>c x. lower_ascii x = lower_ascii c) \<rparr>"

subsection \<open>The fresh dictionary and what a caller sees\<close>

text \<open>The dictionary that \<open>parse_invoice_info\<close> creates: the eleven keys, each with the
  empty string.\<close>

definition empty_info :: dict where
  "empty_info = map (\<lambda>k. (k, [])) invoice_keys"

text \<open>The dictionary as the caller finds it after the call, returned or raised.\<close>

fun dict_of :: "dict outcome \<Rightarrow> dict" where
  "dict_of (Returned d) = d"
| "dict_of (Raised e d) = d"

fun roles_dict_of :: "roles outcome \<Rightarrow> dict" where
  "roles_dict_of (Returned st) = fst st"
| "roles_dict_of (Raised e d) = d"

text \<open>A dictionary is complete when its keys are the eleven field names, in the order of
  \<open>parse_invoice_info\<close>.\<close>

definition complete :: "dict \<Rightarrow> bool" where
  "complete d = (map fst d = invoice_keys)"

subsection \<open>The value of a float\<close>

text \<open>The rational number that a finite float stands for; the proofs relate the integer
  comparisons of \<open>flt\<close> to the order of the rationals through it.\<close>

fun fval :: "pyfloat \<Rightarrow> rat option" where
  "fval (Finite m e) = Some (of_int m * 2 powi e)"
| "fval Infinity = None"

subsection \<open>Two ordered passes, as the specification words the role assignment\<close>

text \<open>Modelled on the specification, for comparison with \<open>line_loop\<close>: the pass of one
  role over all lines, and the buyer pass over the whole text followed by the seller pass
  over the whole text. The body of a pass on one line is the \<open>keyword_loop\<close> of the
  source.\<close>

fun role_pass ::
  "role \<Rightarrow> ustring list \<Rightarrow> ustring list \<Rightarrow> (nat \<times> ustring) list \<Rightarrow> roles \<Rightarrow> roles outcome" where
  "role_pass r keywords lines [] st = Returned st"
| "role_pass r keywords lines ((i, line) # rest) st =
     (case keyword_loop r lines i line keywords st of
        Raised e d \<Rightarrow> Raised e d
      | Returned st1 \<Rightarrow> role_pass r keywords lines rest st1)"

definition spec_two_pass :: "ustring list \<Rightarrow> (nat \<times> ustring) list \<Rightarrow> roles \<Rightarrow> roles outcome" where
  "spec_two_pass lines numbered st =
     (case role_pass Buyer buyer_keywords lines numbered st of
        Raised e d \<Rightarrow> Raised e d
      | Returned st1 \<Rightarrow> role_pass Seller seller_keywords lines numbered st1)"

text \<open>A line has a keyword of the list.\<close>

definition has_keyword :: "ustring list \<Rightarrow> ustring \<Rightarrow> bool" where
  "has_keyword keywords line = list_ex (\<lambda>keyword. sublist keyword line) keywords"

text \<open>No line with a seller keyword comes before a line with a buyer keyword.\<close>

fun buyer_lines_first :: "ustring list \<Rightarrow> bool" where
  "buyer_lines_first [] = True"
| "buyer_lines_first (line # rest) =
     ((\<not> has_keyword seller_keywords line \<or> \<not> list_ex (has_keyword buyer_keywords) rest)
      \<and> buyer_lines_first rest)"

text \<open>The buyer and the seller are not the same name.\<close>

definition roles_apart :: "dict \<Rightarrow> bool" where
  "roles_apart d =
     (case (map_of d k_buyer, map_of d k_seller) of
        (Some b, Some s) \<Rightarrow> b = [] \<or> b \<noteq> s
      | _ \<Rightarrow> True)"

text \<open>The invariant of the state of the loops: the pool holds distinct, non-empty names,
  none of them assigned to a role, and the roles are apart.\<close>

definition pool_inv :: "roles \<Rightarrow> bool" where
  "pool_inv st =
     (distinct (snd st) \<and> [] \<notin> set (snd st)
      \<and> (case map_of (fst st) k_buyer of Some b \<Rightarrow> b \<notin> set (snd st) | None \<Rightarrow> True)
      \<and> (case map_of (fst st) k_seller of Some s \<Rightarrow> s \<notin> set (snd st) | None \<Rightarrow> True)
      \<and> roles_apart (fst st))"

subsection \<open>The fallback of the issuer, as one expression\<close>

text \<open>The name that the three fallback patterns give: the first pattern, in their order,
  with a match of two to four characters decides, by its first such match; the empty
  string when there is none.\<close>

definition fallback_name :: "ucd \<Rightarrow> ustring \<Rightarrow> ustring" where
  "fallback_name U text =
     (case List.map_filter (\<lambda>p. first_name (re_findall p text)) (name_patterns U) of
        [] \<Rightarrow> []
      | m # _ \<Rightarrow> m)"

text \<open>Two adjacent characters of the text are in \<open>[\u4e00-\u9fa5]\<close>.\<close>

fun cjk_pair :: "ustring \<Rightarrow> bool" where
  "cjk_pair (a # b # cs) = ((cjk a \<and> cjk b) \<or> cjk_pair (b # cs))"
| "cjk_pair cs = False"

subsection \<open>Texts without the literal amounts\<close>

text \<open>The text contains none of the three literal amounts that the second half of
  \<open>extract_amount_info\<close> searches.\<close>

definition no_literal_amount :: "ustring \<Rightarrow> bool" where
  "no_literal_amount text =
     (\<not> sublist [0xa5, 0x33, 0x39, 0x39, 0x32, 0x2e, 0x30, 0x30] text
      \<and> \<not> sublist [0xa5, 0x32, 0x32, 0x35, 0x2e, 0x39, 0x36] text
      \<and> \<not> sublist [0xa5, 0x33, 0x37, 0x36, 0x36, 0x2e, 0x30, 0x34] text)"

subsection \<open>Example texts\<close>

text \<open>In the comments a yen sign is written Y, a line break is written /, and a
  character of a Chinese word is given by its code point.\<close>

text \<open>A company name of eight characters ending in the suffix U+516C U+53F8.\<close>

definition company_a :: ustring where
  "company_a =
     [0x5317, 0x4eac, 0x79d1, 0x6280, 0x6709, 0x9650, 0x516c, 0x53f8]"

text \<open>Another company name with the same suffix.\<close>

definition company_b :: ustring where
  "company_b =
     [0x4e0a, 0x6d77, 0x8d38, 0x6613, 0x6709, 0x9650, 0x516c, 0x53f8]"

text \<open>\<open>Y500.00 / Y200.00\<close>\<close>

definition ex_two_amounts :: ustring where
  "ex_two_amounts =
     [0xa5, 0x35, 0x30, 0x30, 0x2e, 0x30, 0x30, 0x0a, 0xa5, 0x32, 0x30, 0x30, 0x2e, 0x30,
      0x30]"

text \<open>\<open>Y3992.00 / Y5000.00\<close>\<close>

definition ex_literal_total :: ustring where
  "ex_literal_total =
     [0xa5, 0x33, 0x39, 0x39, 0x32, 0x2e, 0x30, 0x30, 0x0a, 0xa5, 0x35, 0x30, 0x30, 0x30,
      0x2e, 0x30, 0x30]"

text \<open>\<open>Y500.00\<close>\<close>

definition ex_single_amount :: ustring where
  "ex_single_amount =
     [0xa5, 0x35, 0x30, 0x30, 0x2e, 0x30, 0x30]"

text \<open>\<open>Y820.50 / Y1,200.00 / Y150.25\<close>\<close>

definition ex_three_amounts :: ustring where
  "ex_three_amounts =
     [0xa5, 0x38, 0x32, 0x30, 0x2e, 0x35, 0x30, 0x0a, 0xa5, 0x31, 0x2c, 0x32, 0x30, 0x30,
      0x2e, 0x30, 0x30, 0x0a, 0xa5, 0x31, 0x35, 0x30, 0x2e, 0x32, 0x35]"

text \<open>The buyer keyword U+8D2D U+4E70 U+65B9 on the first line, \<open>company_a\<close> on the second,
  \<open>company_b\<close> on the third.\<close>

definition ex_buyer_keyword :: ustring where
  "ex_buyer_keyword =
     [0x8d2d, 0x4e70, 0x65b9, 0x0a, 0x5317, 0x4eac, 0x79d1, 0x6280, 0x6709, 0x9650, 0x516c,
      0x53f8, 0x0a, 0x4e0a, 0x6d77, 0x8d38, 0x6613, 0x6709, 0x9650, 0x516c, 0x53f8]"

text \<open>The seller keyword U+9500 U+552E U+65B9 on the first line, the buyer keyword on the
  second, \<open>company_a\<close> on the third.\<close>

definition ex_seller_keyword_first :: ustring where
  "ex_seller_keyword_first =
     [0x9500, 0x552e, 0x65b9, 0x0a, 0x8d2d, 0x4e70, 0x65b9, 0x0a, 0x5317, 0x4eac, 0x79d1,
      0x6280, 0x6709, 0x9650, 0x516c, 0x53f8]"

text \<open>The buyer keyword, \<open>company_a\<close>, the seller keyword, \<open>company_b\<close>, one on each
  line.\<close>

definition ex_buyer_then_seller :: ustring where
  "ex_buyer_then_seller =
     [0x8d2d, 0x4e70, 0x65b9, 0x0a, 0x5317, 0x4eac, 0x79d1, 0x6280, 0x6709, 0x9650, 0x516c,
      0x53f8, 0x0a, 0x9500, 0x552e, 0x65b9, 0x0a, 0x4e0a, 0x6d77, 0x8d38, 0x6613, 0x6709,
      0x9650, 0x516c, 0x53f8]"

text \<open>The single line U+5F00 U+7968 U+4EBA, the label of the issuer, an excluded word.\<close>

definition ex_label_line :: ustring where
  "ex_label_line =
     [0x5f00, 0x7968, 0x4eba]"

text \<open>\<open>No. 42: 100%\<close>, a text without any character of \<open>[\u4e00-\u9fa5]\<close>.\<close>

definition ex_no_name :: ustring where
  "ex_no_name =
     [0x4e, 0x6f, 0x2e, 0x20, 0x34, 0x32, 0x3a, 0x20, 0x31, 0x30, 0x30, 0x25]"

text \<open>\<open>L:N\<close> with the label U+5F00 U+7968 U+4EBA for L and the literal name
  U+5F20 U+82F1 U+8C6A of the first fallback pattern for N.\<close>

definition ex_issuer_literal :: ustring where
  "ex_issuer_literal =
     [0x5f00, 0x7968, 0x4eba, 0x3a, 0x5f20, 0x82f1, 0x8c6a]"

text \<open>\<open>R:N\<close> with the excluded word U+590D U+6838 for R and the two characters
  U+5F20 U+4E09 for N: a match of the second fallback pattern, after two characters that
  the third one matches.\<close>

definition ex_issuer_surname :: ustring where
  "ex_issuer_surname =
     [0x590d, 0x6838, 0x3a, 0x5f20, 0x4e09]"

text \<open>One line of seven characters of \<open>[\u4e00-\u9fa5]\<close> that starts with U+5F20: the
  second fallback pattern matches all seven, too long for a name.\<close>

definition ex_issuer_long :: ustring where
  "ex_issuer_long =
     [0x5f20, 0x4e09, 0x4e30, 0x6709, 0x9650, 0x516c, 0x53f8]"

text \<open>\<open>2023y1m1d / L:2024y3m5d\<close> with U+5E74, U+6708, U+65E5 for y, m, d, the label
  U+5F00 U+7968 U+65E5 U+671F for L and the fullwidth colon.\<close>

definition ex_two_dates :: ustring where
  "ex_two_dates =
     [0x32, 0x30, 0x32, 0x33, 0x5e74, 0x31, 0x6708, 0x31, 0x65e5, 0x0a, 0x5f00, 0x7968,
      0x65e5, 0x671f, 0xff1a, 0x32, 0x30, 0x32, 0x34, 0x5e74, 0x33, 0x6708, 0x35, 0x65e5]"

text \<open>\<open>2024y3m5d\<close>\<close>

definition ex_one_date :: ustring where
  "ex_one_date =
     [0x32, 0x30, 0x32, 0x34, 0x5e74, 0x33, 0x6708, 0x35, 0x65e5]"

text \<open>The label U+53D1 U+7968 U+53F7 U+7801, the fullwidth colon and \<open>12345678901\<close>.\<close>

definition ex_labelled_number :: ustring where
  "ex_labelled_number =
     [0x53d1, 0x7968, 0x53f7, 0x7801, 0xff1a, 0x31, 0x32, 0x33, 0x34, 0x35, 0x36, 0x37,
      0x38, 0x39, 0x30, 0x31]"

text \<open>\<open>No 1234567890 x\<close>: a run of ten digits without a label.\<close>

definition ex_bare_number :: ustring where
  "ex_bare_number =
     [0x4e, 0x6f, 0x20, 0x31, 0x32, 0x33, 0x34, 0x35, 0x36, 0x37, 0x38, 0x39, 0x30, 0x20,
      0x78]"

text \<open>\<open>99999999\<close>, a space, then the text of \<open>ex_labelled_number\<close>.\<close>

definition ex_bare_before_label :: ustring where
  "ex_bare_before_label =
     [0x39, 0x39, 0x39, 0x39, 0x39, 0x39, 0x39, 0x39, 0x20, 0x53d1, 0x7968, 0x53f7, 0x7801,
      0xff1a, 0x31, 0x32, 0x33, 0x34, 0x35, 0x36, 0x37, 0x38, 0x39, 0x30, 0x31]"


section \<open>Properties\<close>

subsection \<open>The order of the floats and the sort\<close>

text \<open>
  \<open>flt\<close> compares the values: on two finite floats it is the order of the rationals
  \<open>m * 2 ^ e\<close>, and infinity is above every finite float.
\<close>

lemma powi_split:
  fixes e1 e :: int
  assumes "e \<le> e1"
  shows "(2::rat) powi e1 = of_int (2 ^ nat (e1 - e)) * 2 powi e"
proof -
  have "(2::rat) powi e1 = 2 powi ((e1 - e) + e)" by simp
  also have "\<dots> = 2 powi (e1 - e) * 2 powi e"
    by (rule power_int_add) simp
  also have "(2::rat) powi (e1 - e) = 2 ^ nat (e1 - e)"
    using assms by (simp add: power_int_def)
  finally show ?thesis by simp
qed

lemma flt_Finite:
  "flt (Finite m1 e1) (Finite m2 e2)
     \<longleftrightarrow> (of_int m1 * 2 powi e1 :: rat) < of_int m2 * 2 powi e2"
proof -
  define e where "e = min e1 e2"
  have le: "e \<le> e1" "e \<le> e2" by (simp_all add: e_def)
  have pos: "(0::rat) < 2 powi e" by (simp add: power_int_def)
  have "(of_int m1 * 2 powi e1 :: rat) < of_int m2 * 2 powi e2
        \<longleftrightarrow> of_int (m1 * 2 ^ nat (e1 - e)) * 2 powi e < (of_int (m2 * 2 ^ nat (e2 - e)) * 2 powi e :: rat)"
    by (simp add: powi_split [OF le(1)] powi_split [OF le(2)] mult.assoc)
  also have "\<dots> \<longleftrightarrow> (of_int (m1 * 2 ^ nat (e1 - e)) :: rat) < of_int (m2 * 2 ^ nat (e2 - e))"
    using pos by (rule mult_less_cancel_right_pos)
  also have "\<dots> \<longleftrightarrow> m1 * 2 ^ nat (e1 - e) < m2 * 2 ^ nat (e2 - e)"
    by (rule of_int_less_iff)
  finally show ?thesis by (simp add: e_def)
qed

lemma flt_fval:
  "flt a b \<longleftrightarrow>
     (case fval a of None \<Rightarrow> False
      | Some x \<Rightarrow> (case fval b of None \<Rightarrow> True | Some y \<Rightarrow> x < y))"
  by (cases a; cases b) (simp_all add: flt_Finite del: flt.simps(1))

lemma flt_irrefl: "\<not> flt a a"
  by (simp add: flt_fval split: option.splits)

lemma flt_asym: "flt a b \<Longrightarrow> \<not> flt b a"
  by (auto simp: flt_fval split: option.splits)

lemma flt_trans: "flt a b \<Longrightarrow> flt b c \<Longrightarrow> flt a c"
  by (auto simp: flt_fval split: option.splits)

lemma fle_refl: "fle a a"
  by (simp add: fle_def flt_irrefl)

lemma fle_trans: "fle a b \<Longrightarrow> fle b c \<Longrightarrow> fle a c"
  by (auto simp: fle_def flt_fval split: option.splits)

lemma flt_imp_fle: "flt a b \<Longrightarrow> fle a b"
  by (auto simp: fle_def flt_fval split: option.splits)

text \<open>
  The sort keeps the elements and orders them by \<open>fle\<close>.
\<close>

lemma set_py_insort: "set (py_insort x ys) = insert x (set ys)"
  by (induction ys) auto

lemma set_py_sort: "set (py_sort xs) = set xs"
  by (induction xs) (simp_all add: py_sort_def set_py_insort)

lemma length_py_insort: "length (py_insort x ys) = Suc (length ys)"
  by (induction ys) auto

lemma length_py_sort: "length (py_sort xs) = length xs"
  by (induction xs) (simp_all add: py_sort_def length_py_insort)

lemma sorted_py_insort:
  "sorted_wrt fle ys \<Longrightarrow> sorted_wrt fle (py_insort x ys)"
proof (induction ys)
  case Nil
  show ?case by simp
next
  case (Cons y ys)
  show ?case
  proof (cases "flt y x")
    case True
    have "fle y z" if "z \<in> set (py_insort x ys)" for z
      using that Cons.prems True by (auto simp: set_py_insort flt_imp_fle)
    with Cons True show ?thesis by simp
  next
    case False
    then have xy: "fle x y" by (simp add: fle_def)
    have "fle x z" if "z \<in> set ys" for z
      using that Cons.prems xy by (auto intro: fle_trans)
    with Cons.prems False xy show ?thesis by simp
  qed
qed

lemma sorted_py_sort: "sorted_wrt fle (py_sort xs)"
  by (induction xs) (simp_all add: py_sort_def sorted_py_insort)

lemma py_sort_Nil_iff: "py_sort xs = [] \<longleftrightarrow> xs = []"
  using length_py_sort [of xs] by (metis length_0_conv)

text \<open>
  On a sorted list the loop for the tax finds the least element of the band, and
  \<open>max\<close> finds a greatest element of any non-empty list.
\<close>

lemma tax_loop_none:
  "\<not> list_ex in_band xs \<Longrightarrow> tax_loop xs info = info"
  by (induction xs) auto

lemma tax_loop_least:
  assumes "sorted_wrt fle xs" "list_ex in_band xs"
  shows "\<exists>a \<in> set xs. in_band a \<and> (\<forall>b \<in> set xs. in_band b \<longrightarrow> fle a b)
           \<and> tax_loop xs info = AList.update k_tax (fmt2 a) info"
  using assms
proof (induction xs)
  case Nil
  then show ?case by simp
next
  case (Cons x xs)
  show ?case
  proof (cases "in_band x")
    case True
    with Cons.prems(1) show ?thesis by (auto simp: fle_refl)
  next
    case False
    with Cons.prems have "sorted_wrt fle xs" "list_ex in_band xs" by auto
    from Cons.IH [OF this] False show ?thesis by auto
  qed
qed

lemma foldl_max:
  "\<exists>m \<in> insert x (set xs). (\<forall>y \<in> insert x (set xs). fle y m)
      \<and> foldl (\<lambda>m y. if flt m y then y else m) x xs = m"
proof (induction xs arbitrary: x)
  case Nil
  show ?case by (simp add: fle_refl)
next
  case (Cons z zs)
  let ?x' = "if flt x z then z else x"
  from Cons.IH [of ?x'] obtain m where m:
    "m \<in> insert ?x' (set zs)" "\<forall>y \<in> insert ?x' (set zs). fle y m"
    "foldl (\<lambda>m y. if flt m y then y else m) ?x' zs = m" by blast
  have x': "fle x ?x'" "fle z ?x'"
    by (auto simp: fle_refl flt_imp_fle fle_def flt_irrefl dest: flt_asym)
  have "fle ?x' m" using m(2) by blast
  then have xm: "fle x m" and zm: "fle z m" using x' by (blast intro: fle_trans)+
  have mem: "m \<in> insert x (set (z # zs))" using m(1) by (auto split: if_splits)
  have all: "\<forall>y \<in> insert x (set (z # zs)). fle y m"
    using xm zm m(2) by auto
  have "foldl (\<lambda>m y. if flt m y then y else m) x (z # zs) = m"
    using m(3) by simp
  with mem all show ?case by blast
qed

lemma py_max_greatest:
  assumes "xs \<noteq> []"
  shows "\<exists>m \<in> set xs. (\<forall>y \<in> set xs. fle y m) \<and> py_max xs = Some m"
proof -
  from assms obtain x ys where xs: "xs = x # ys" by (cases xs) auto
  from foldl_max [of x ys] show ?thesis by (auto simp: xs)
qed

subsection \<open>The matcher\<close>

text \<open>
  A literal string matches exactly where it is a prefix; every remainder that the matcher
  yields is a suffix of the text; \<open>re.findall\<close> finds nothing exactly when the pattern
  matches at no position, and each of its results is the group of a match at some
  position.
\<close>

lemma amatch_one:
  "amatch (one p # as) s = (case s of [] \<Rightarrow> [] | x # t \<Rightarrow> if p x then amatch as t else [])"
  by (cases s) (simp_all add: one_def)

lemma amatch_lit:
  "amatch (lit w @ as) s = (if prefix w s then amatch as (drop (length w) s) else [])"
proof (induction w arbitrary: s)
  case Nil
  show ?case by (simp add: lit_def)
next
  case (Cons c w)
  have "lit (c # w) @ as = one (\<lambda>x. x = c) # (lit w @ as)" by (simp add: lit_def)
  then show ?case using Cons.IH by (cases s) (auto simp: amatch_one)
qed

lemma amatch_lit_only:
  "amatch (lit w) s = (if prefix w s then [drop (length w) s] else [])"
  using amatch_lit [of w "[]" s] by simp

lemma match_at_lit:
  "match_at (lit a, lit b) s
     = (if prefix (a @ b) s then Some (b, drop (length a + length b) s) else None)"
proof (cases "prefix a s")
  case False
  then have "\<not> prefix (a @ b) s" by (auto simp: prefix_def)
  with False show ?thesis by (simp add: match_at_def amatch_lit_only)
next
  case True
  then obtain r where s: "s = a @ r" by (auto simp: prefix_def)
  show ?thesis
  proof (cases "prefix b r")
    case False
    then show ?thesis by (simp add: match_at_def amatch_lit_only s)
  next
    case True
    then obtain r' where r: "r = b @ r'" by (auto simp: prefix_def)
    show ?thesis by (simp add: match_at_def amatch_lit_only s r)
  qed
qed

lemma match_at_whole:
  "match_at ([], g) s
     = (case amatch g s of [] \<Rightarrow> None | s2 # x \<Rightarrow> Some (take (length s - length s2) s, s2))"
  by (simp add: match_at_def split: list.splits)

lemma amatch_cls_only:
  "amatch [Cls p lo hi] s
     = map (\<lambda>k. drop k s)
         (rev [lo ..< Suc (case hi of None \<Rightarrow> length (takeWhile p s)
                            | Some h \<Rightarrow> min (length (takeWhile p s)) h)])"
  by (simp add: Let_def concat_map_singleton)

lemma amatch_suffix: "r \<in> set (amatch as s) \<Longrightarrow> suffix r s"
proof (induction as s arbitrary: r rule: amatch.induct)
  case (1 s)
  then show ?case by simp
next
  case (2 p lo hi as s)
  let ?n = "length (takeWhile p s)"
  let ?m = "case hi of None \<Rightarrow> ?n | Some h \<Rightarrow> min ?n h"
  from "2.prems" obtain k where kr: "k \<in> set (rev [lo ..< Suc ?m])"
    and k: "r \<in> set (amatch as (drop k s))"
    by (auto simp: Let_def)
  have "suffix r (drop k s)"
    using "2.IH" [OF refl refl kr k] .
  then show ?case by (blast intro: suffix_order.trans suffix_drop)
next
  case (3 ws as s)
  from "3.prems" obtain w where w: "w \<in> set ws" "prefix w s" "r \<in> set (amatch as (drop (length w) s))"
    by (auto split: if_splits)
  have "suffix r (drop (length w) s)" using "3.IH" w by auto
  then show ?case by (blast intro: suffix_order.trans suffix_drop)
next
  case (4 as s)
  then show ?case by (auto split: if_splits)
qed

lemma first_group_suffix:
  "first_group g ss = Some (m, r) \<Longrightarrow> \<exists>s1 \<in> set ss. suffix r s1"
proof (induction ss)
  case Nil
  then show ?case by simp
next
  case (Cons s1 ss)
  show ?case
  proof (cases "amatch g s1")
    case Nil
    with Cons show ?thesis by auto
  next
    case (Cons s2 rest)
    then have "s2 \<in> set (amatch g s1)" by simp
    then have "suffix s2 s1" by (rule amatch_suffix)
    with Cons Cons.prems show ?thesis by auto
  qed
qed

lemma first_group_None_iff:
  "first_group g ss = None \<longleftrightarrow> (\<forall>s1 \<in> set ss. amatch g s1 = [])"
  by (induction ss) (auto split: list.splits)

lemma match_at_suffix: "match_at p s = Some (m, r) \<Longrightarrow> suffix r s"
proof -
  assume "match_at p s = Some (m, r)"
  then obtain s1 where "s1 \<in> set (amatch (fst p) s)" "suffix r s1"
    unfolding match_at_def by (blast dest: first_group_suffix)
  then show ?thesis by (blast intro: suffix_order.trans amatch_suffix)
qed

lemma re_findall_Nil:
  assumes "\<And>t. suffix t s \<Longrightarrow> match_at p t = None"
  shows "re_findall p s = []"
  using assms
proof (induction s)
  case Nil
  then have "match_at p [] = None" by simp
  then show ?case by (simp add: re_findall.simps [of p "[]"])
next
  case (Cons c cs)
  have "match_at p (c # cs) = None" using Cons.prems by simp
  moreover have "re_findall p cs = []"
    using Cons.prems by (intro Cons.IH) (simp add: suffix_Cons)
  ultimately show ?case by (simp add: re_findall.simps [of p "c # cs"])
qed

lemma re_findall_nonempty:
  assumes "suffix t s" and "match_at p t \<noteq> None"
  shows "re_findall p s \<noteq> []"
  using assms
proof (induction s)
  case Nil
  then show ?case by (auto simp: re_findall.simps [of p "[]"])
next
  case (Cons c cs)
  show ?case
  proof (cases "match_at p (c # cs)")
    case (Some a)
    then show ?thesis by (cases a) (simp add: re_findall.simps [of p "c # cs"])
  next
    case None
    with Cons.prems have "t \<noteq> c # cs" by auto
    with Cons.prems(1) have "suffix t cs" by (simp add: suffix_Cons)
    from Cons.IH [OF this Cons.prems(2)] None show ?thesis
      by (simp add: re_findall.simps [of p "c # cs"])
  qed
qed

lemma re_findall_elem:
  "m \<in> set (re_findall p s) \<Longrightarrow> \<exists>t r. suffix t s \<and> match_at p t = Some (m, r)"
proof (induction s arbitrary: m rule: length_induct)
  case (1 s)
  note IH = "1.IH" and mem = "1.prems"
  have step: "\<exists>t r. suffix t s \<and> match_at p t = Some (m, r)"
    if "m \<in> set (re_findall p s')" "length s' < length s" "suffix s' s" for s'
  proof -
    from IH that(1,2) obtain t r where "suffix t s'" "match_at p t = Some (m, r)" by blast
    with that(3) show ?thesis by (blast intro: suffix_order.trans)
  qed
  have tail: "\<exists>t r. suffix t s \<and> match_at p t = Some (m, r)"
    if "s = c # cs" "m \<in> set (re_findall p cs)" for c cs
    using that by (intro step [of cs]) (simp_all add: suffix_Cons)
  show ?case
  proof (cases "match_at p s")
    case None
    show ?thesis
    proof (cases s)
      case Nil
      with mem None show ?thesis by (simp add: re_findall.simps [of p "[]"])
    next
      case (Cons c cs)
      with mem None have "m \<in> set (re_findall p cs)"
        by (simp add: re_findall.simps [of p "c # cs"])
      with Cons show ?thesis by (rule tail)
    qed
  next
    case (Some a)
    obtain g r where a: "a = (g, r)" by (cases a)
    show ?thesis
    proof (cases "m = g")
      case True
      with Some a show ?thesis by auto
    next
      case False
      show ?thesis
      proof (cases "length r < length s")
        case True
        have sr: "suffix r s" using Some a by (auto dest: match_at_suffix)
        from mem Some a False True have "m \<in> set (re_findall p r)"
          by (simp add: re_findall.simps [of p s])
        from step [OF this True sr] show ?thesis .
      next
        case False
        note nl = this
        show ?thesis
        proof (cases s)
          case Nil
          with mem Some a \<open>m \<noteq> g\<close> show ?thesis
            by (simp add: re_findall.simps [of p "[]"])
        next
          case (Cons c cs)
          with mem Some a \<open>m \<noteq> g\<close> nl have "m \<in> set (re_findall p cs)"
            by (simp add: re_findall.simps [of p "c # cs"])
          with Cons show ?thesis by (rule tail)
        qed
      qed
    qed
  qed
qed

lemma re_search_None_iff:
  "re_search p s = None \<longleftrightarrow> (\<forall>t. suffix t s \<longrightarrow> match_at p t = None)"
proof (induction s)
  case Nil
  show ?case by simp
next
  case (Cons c cs)
  show ?case
  proof (cases "match_at p (c # cs)")
    case None
    with Cons show ?thesis by (auto simp: suffix_Cons)
  next
    case (Some a)
    then show ?thesis by (cases a) auto
  qed
qed

lemma findall_lit_absent:
  assumes "\<not> sublist (a @ b) text"
  shows "re_findall (lit a, lit b) text = []"
proof (rule re_findall_Nil)
  fix t assume "suffix t text"
  then have "\<not> prefix (a @ b) t" using assms by (auto simp: sublist_altdef')
  then show "match_at (lit a, lit b) t = None" by (simp add: match_at_lit)
qed

subsection \<open>Dictionaries\<close>

lemma map_of_update:
  "map_of (AList.update k v d) k' = (if k' = k then Some v else map_of d k')"
  by (simp add: update_conv')

lemma invoice_keys_mem [simp]:
  "k_number \<in> set invoice_keys" "k_date \<in> set invoice_keys" "k_buyer \<in> set invoice_keys"
  "k_buyer_code \<in> set invoice_keys" "k_seller \<in> set invoice_keys"
  "k_seller_code \<in> set invoice_keys" "k_item \<in> set invoice_keys"
  "k_spec \<in> set invoice_keys" "k_tax \<in> set invoice_keys" "k_total \<in> set invoice_keys"
  "k_issuer \<in> set invoice_keys"
  by (simp_all add: invoice_keys_def)

lemma complete_update [simp]:
  "complete d \<Longrightarrow> k \<in> set invoice_keys \<Longrightarrow> complete (AList.update k v d)"
  by (simp add: complete_def update_keys)

lemma complete_lookup:
  "complete d \<Longrightarrow> k \<in> set invoice_keys \<Longrightarrow> \<exists>v. map_of d k = Some v"
  by (cases "map_of d k") (auto simp: complete_def map_of_eq_None_iff simp flip: set_map)

lemma role_key_mem [simp]: "role_key r \<in> set invoice_keys"
  by (cases r) simp_all

lemma complete_empty_info: "complete empty_info"
  by (simp add: complete_def empty_info_def comp_def)

lemma k_tax_total [simp]: "k_tax \<noteq> k_total" "k_total \<noteq> k_tax"
  by (simp_all add: k_tax_def k_total_def)

lemma k_issuer_others [simp]:
  "k_item \<noteq> k_issuer" "k_spec \<noteq> k_issuer" "k_issuer \<noteq> k_item" "k_issuer \<noteq> k_spec"
  by (simp_all add: k_item_def k_issuer_def k_spec_def)

lemma k_role_keys [simp]:
  "k_buyer \<noteq> k_seller" "k_seller \<noteq> k_buyer"
  "k_buyer_code \<noteq> k_buyer" "k_buyer_code \<noteq> k_seller"
  "k_seller_code \<noteq> k_buyer" "k_seller_code \<noteq> k_seller"
  "k_buyer \<noteq> k_buyer_code" "k_seller \<noteq> k_buyer_code"
  "k_buyer \<noteq> k_seller_code" "k_seller \<noteq> k_seller_code"
  by (simp_all add: k_buyer_def k_seller_def k_buyer_code_def k_seller_code_def)

subsection \<open>The amount extractor\<close>

text \<open>
  Without the literal amounts in the text the second half of \<open>extract_amount_info\<close>
  changes nothing, and the function is its first half on the pool.
\<close>

lemma found_amounts_none:
  assumes "no_literal_amount text"
  shows "found_amounts U specific_patterns text [] = Some []"
  using assms
  by (simp add: no_literal_amount_def specific_patterns_def findall_lit_absent)

lemma extract_amount_plain:
  assumes "no_literal_amount text"
  shows "extract_amount_info U text info = classify_amounts (amount_pool U text) info"
  by (cases "classify_amounts (amount_pool U text) info")
     (simp_all add: extract_amount_info_def found_amounts_none [OF assms] apply_specific_def)

lemma tax_loop_total: "map_of (tax_loop xs d) k_total = map_of d k_total"
  by (induction xs) (simp_all add: map_of_update)

lemma classify_nonempty:
  assumes "pool \<noteq> []"
  shows "\<exists>m \<in> set pool. (\<forall>x \<in> set pool. fle x m)
           \<and> classify_amounts pool info
               = Returned (tax_loop (py_sort pool) (AList.update k_total (fmt2 m) info))"
proof -
  have ne: "py_sort pool \<noteq> []" using assms by (simp add: py_sort_Nil_iff)
  from py_max_greatest [OF ne] obtain m where m:
    "m \<in> set pool" "\<forall>y \<in> set pool. fle y m" "py_max (py_sort pool) = Some m"
    by (auto simp: set_py_sort)
  have "length (py_sort pool) \<ge> 1" using ne by (cases "py_sort pool") simp_all
  with assms m show ?thesis by (auto simp: classify_amounts_def Let_def)
qed

text \<open>
  C1. The specification gives the tax amount as the first amount of the pool, in line
  order, that lies in the band from 100 to 1000. The function sorts the pool in place
  before it looks for the tax (\<open>amounts.sort()\<close>, under the comment that the tax is
  one of the smaller amounts), and its second half overrides both fields when one of three
  literal amounts stands in the text. What holds: for every text without the three literal
  amounts, the tax amount is the least amount of the pool that lies in the band, printed
  with two decimals, and it keeps its former value when no amount of the pool lies in the
  band.
\<close>

theorem C1_tax_is_least_amount_in_band:
  assumes "no_literal_amount text"
  shows "\<exists>d. extract_amount_info U text info = Returned d
           \<and> (if list_ex in_band (amount_pool U text)
                then \<exists>a \<in> set (amount_pool U text).
                       in_band a
                       \<and> (\<forall>b \<in> set (amount_pool U text). in_band b \<longrightarrow> fle a b)
                       \<and> map_of d k_tax = Some (fmt2 a)
                else map_of d k_tax = map_of info k_tax)"
proof (cases "amount_pool U text = []")
  case True
  then show ?thesis
    by (simp add: extract_amount_plain [OF assms] classify_amounts_def)
next
  case False
  let ?pool = "amount_pool U text"
  from classify_nonempty [OF False, of info] obtain m where m:
    "classify_amounts ?pool info
       = Returned (tax_loop (py_sort ?pool) (AList.update k_total (fmt2 m) info))"
    by blast
  let ?d0 = "AList.update k_total (fmt2 m) info"
  show ?thesis
  proof (cases "list_ex in_band ?pool")
    case False
    then have "\<not> list_ex in_band (py_sort ?pool)"
      by (simp add: list_ex_iff set_py_sort)
    then have "tax_loop (py_sort ?pool) ?d0 = ?d0" by (rule tax_loop_none)
    with False m show ?thesis
      by (simp add: extract_amount_plain [OF assms] map_of_update)
  next
    case True
    then have ex: "list_ex in_band (py_sort ?pool)"
      by (simp add: list_ex_iff set_py_sort)
    from tax_loop_least [OF sorted_py_sort ex, of ?d0] obtain a where a:
      "a \<in> set ?pool" "in_band a" "\<forall>b \<in> set ?pool. in_band b \<longrightarrow> fle a b"
      "tax_loop (py_sort ?pool) ?d0 = AList.update k_tax (fmt2 a) ?d0"
      by (auto simp: set_py_sort)
    with True m show ?thesis
      by (auto simp: extract_amount_plain [OF assms] map_of_update)
  qed
qed

text \<open>
  The theorem at \<open>ex_three_amounts\<close>: the pool is 820.50, 1200.00, 150.25 in line order,
  and the tax amount is \<open>150.25\<close>.
\<close>

theorem C1_least_in_band_witness:
  "no_literal_amount ex_three_amounts
   \<and> list_ex in_band (amount_pool ucd_examples ex_three_amounts)
   \<and> (\<exists>d. extract_amount_info ucd_examples ex_three_amounts empty_info = Returned d
          \<and> (\<exists>a \<in> set (amount_pool ucd_examples ex_three_amounts).
                in_band a
                \<and> (\<forall>b \<in> set (amount_pool ucd_examples ex_three_amounts). in_band b \<longrightarrow> fle a b)
                \<and> map_of d k_tax = Some (fmt2 a)))
   \<and> map_of (dict_of (extract_amount_info ucd_examples ex_three_amounts empty_info)) k_tax
     = Some [0x31, 0x35, 0x30, 0x2e, 0x32, 0x35]"
proof -
  have h: "no_literal_amount ex_three_amounts" by code_simp
  have b: "list_ex in_band (amount_pool ucd_examples ex_three_amounts)" by code_simp
  have v: "map_of (dict_of (extract_amount_info ucd_examples ex_three_amounts empty_info)) k_tax
     = Some [0x31, 0x35, 0x30, 0x2e, 0x32, 0x35]" by code_simp
  from C1_tax_is_least_amount_in_band [OF h, of ucd_examples empty_info] b
  have "\<exists>d. extract_amount_info ucd_examples ex_three_amounts empty_info = Returned d
          \<and> (\<exists>a \<in> set (amount_pool ucd_examples ex_three_amounts).
                in_band a
                \<and> (\<forall>b \<in> set (amount_pool ucd_examples ex_three_amounts). in_band b \<longrightarrow> fle a b)
                \<and> map_of d k_tax = Some (fmt2 a))"
    by simp
  with h b v show ?thesis by blast
qed

text \<open>
  The claim C1 as stated fails on \<open>ex_two_amounts\<close>: the first amount of the band in line
  order is 500.00, and the tax amount is \<open>200.00\<close>.
\<close>

theorem C1_counterexample:
  "map_option fmt2 (find in_band (amount_pool ucd_examples ex_two_amounts))
     = Some [0x35, 0x30, 0x30, 0x2e, 0x30, 0x30]
   \<and> map_of (dict_of (extract_amount_info ucd_examples ex_two_amounts empty_info)) k_tax
     = Some [0x32, 0x30, 0x30, 0x2e, 0x30, 0x30]"
  by code_simp

text \<open>
  C3. The specification gives the total as the maximum of the pool whenever the pool is not
  empty. The second half of the function overrides the total when one of the three literal
  amounts stands in the text. What holds: for every text without the three literal amounts
  and with a non-empty pool, the total is a greatest amount of the pool, printed with two
  decimals.
\<close>

theorem C3_total_is_greatest_amount:
  assumes "no_literal_amount text" and "amount_pool U text \<noteq> []"
  shows "\<exists>d. extract_amount_info U text info = Returned d
           \<and> (\<exists>m \<in> set (amount_pool U text).
                 (\<forall>x \<in> set (amount_pool U text). fle x m)
                 \<and> map_of d k_total = Some (fmt2 m))"
proof -
  from classify_nonempty [OF assms(2), of info] obtain m where m:
    "m \<in> set (amount_pool U text)" "\<forall>x \<in> set (amount_pool U text). fle x m"
    "classify_amounts (amount_pool U text) info
       = Returned (tax_loop (py_sort (amount_pool U text)) (AList.update k_total (fmt2 m) info))"
    by blast
  show ?thesis
    using m by (auto simp: extract_amount_plain [OF assms(1)] tax_loop_total map_of_update)
qed

text \<open>
  The theorem at \<open>ex_three_amounts\<close>: the total is \<open>1200.00\<close>.
\<close>

theorem C3_greatest_amount_witness:
  "no_literal_amount ex_three_amounts
   \<and> amount_pool ucd_examples ex_three_amounts \<noteq> []
   \<and> (\<exists>d. extract_amount_info ucd_examples ex_three_amounts empty_info = Returned d
           \<and> (\<exists>m \<in> set (amount_pool ucd_examples ex_three_amounts).
                 (\<forall>x \<in> set (amount_pool ucd_examples ex_three_amounts). fle x m)
                 \<and> map_of d k_total = Some (fmt2 m)))
   \<and> map_of (dict_of (extract_amount_info ucd_examples ex_three_amounts empty_info)) k_total
     = Some [0x31, 0x32, 0x30, 0x30, 0x2e, 0x30, 0x30]"
proof -
  have h: "no_literal_amount ex_three_amounts" by code_simp
  have p: "amount_pool ucd_examples ex_three_amounts \<noteq> []" by code_simp
  have v: "map_of (dict_of (extract_amount_info ucd_examples ex_three_amounts empty_info)) k_total
     = Some [0x31, 0x32, 0x30, 0x30, 0x2e, 0x30, 0x30]" by code_simp
  from C3_total_is_greatest_amount [OF h p, of empty_info] h p v
  show ?thesis by blast
qed

text \<open>
  The claim C3 as stated fails on \<open>ex_literal_total\<close>: the maximum of the pool is 5000.00,
  and the total is the literal \<open>3992.00\<close>.
\<close>

theorem C3_counterexample:
  "map_option fmt2 (py_max (amount_pool ucd_examples ex_literal_total))
     = Some [0x35, 0x30, 0x30, 0x30, 0x2e, 0x30, 0x30]
   \<and> map_of (dict_of (extract_amount_info ucd_examples ex_literal_total empty_info)) k_total
     = Some [0x33, 0x39, 0x39, 0x32, 0x2e, 0x30, 0x30]"
  by code_simp

text \<open>
  C10. There are texts whose only amount is one value of the band, without any of the
  three literal amounts, for which the tax amount and the total are the same value. More
  is true: this holds for every such text, and \<open>ex_single_amount\<close> is one of them.
\<close>

theorem C10_single_amount_is_tax_and_total:
  assumes "no_literal_amount text" and "amount_pool U text = [a]" and "in_band a"
  shows "\<exists>d. extract_amount_info U text info = Returned d
           \<and> map_of d k_tax = Some (fmt2 a) \<and> map_of d k_total = Some (fmt2 a)"
  using assms(2,3)
  by (simp add: extract_amount_plain [OF assms(1)] classify_amounts_def py_sort_def
      map_of_update)

text \<open>
  The theorem at \<open>ex_single_amount\<close>: the pool is the single amount 500, and both fields
  are \<open>500.00\<close>.
\<close>

theorem C10_single_amount_witness:
  "no_literal_amount ex_single_amount
   \<and> amount_pool ucd_examples ex_single_amount = [float_of_frac 500 1]
   \<and> in_band (float_of_frac 500 1)
   \<and> (\<exists>d. extract_amount_info ucd_examples ex_single_amount empty_info = Returned d
           \<and> map_of d k_tax = Some [0x35, 0x30, 0x30, 0x2e, 0x30, 0x30]
           \<and> map_of d k_total = Some [0x35, 0x30, 0x30, 0x2e, 0x30, 0x30])"
proof -
  have h: "no_literal_amount ex_single_amount" by code_simp
  have p: "amount_pool ucd_examples ex_single_amount = [float_of_frac 500 1]" by code_simp
  have b: "in_band (float_of_frac 500 1)" by code_simp
  have f: "fmt2 (float_of_frac 500 1) = [0x35, 0x30, 0x30, 0x2e, 0x30, 0x30]" by code_simp
  from C10_single_amount_is_tax_and_total [OF h p b, of empty_info] h p b
  show ?thesis by (simp add: f)
qed

subsection \<open>The parse entry point\<close>

text \<open>
  Every extractor writes only to the eleven keys, so a complete dictionary stays complete
  through each of them, whether the extractor returns or raises.
\<close>

lemma complete_number_loop: "complete info \<Longrightarrow> complete (number_loop ps text info)"
  by (induction ps) (auto split: option.splits)

lemma complete_date_loop: "complete info \<Longrightarrow> complete (date_loop ps text info)"
  by (induction ps) (auto split: option.splits)

lemma complete_claim:
  "complete info \<Longrightarrow> complete (roles_dict_of (claim r line_j cs (info, companies)))"
  by (induction cs) (auto split: option.splits role.splits)

lemma complete_near:
  "complete (fst st) \<Longrightarrow> complete (roles_dict_of (near r lines js st))"
proof (induction js arbitrary: st)
  case Nil
  then show ?case by simp
next
  case (Cons j js)
  obtain info companies where st: "st = (info, companies)" by (cases st)
  have c: "complete (roles_dict_of (claim r (lines ! j) companies (info, companies)))"
    using Cons.prems by (simp add: st complete_claim)
  show ?case
    using c Cons.prems Cons.IH by (auto simp: st split: outcome.splits)
qed

lemma complete_keyword_loop:
  "complete (fst st) \<Longrightarrow> complete (roles_dict_of (keyword_loop r lines i line kws st))"
proof (induction kws arbitrary: st)
  case Nil
  then show ?case by simp
next
  case (Cons kw kws)
  have c: "complete (roles_dict_of (near r lines (window i (length lines)) st))"
    using Cons.prems by (rule complete_near)
  show ?case
    using c Cons.prems Cons.IH by (auto split: outcome.splits)
qed

lemma complete_line_loop:
  "complete (fst st) \<Longrightarrow> complete (roles_dict_of (line_loop lines xs st))"
proof (induction xs arbitrary: st)
  case Nil
  then show ?case by simp
next
  case (Cons x xs)
  obtain i line where x: "x = (i, line)" by (cases x)
  have b: "complete (roles_dict_of (keyword_loop Buyer lines i line buyer_keywords st))"
    using Cons.prems by (rule complete_keyword_loop)
  show ?case
  proof (cases "keyword_loop Buyer lines i line buyer_keywords st")
    case (Raised e d)
    with b show ?thesis by (simp add: x)
  next
    case (Returned st1)
    with b have c1: "complete (fst st1)" by simp
    have s: "complete (roles_dict_of (keyword_loop Seller lines i line seller_keywords st1))"
      using c1 by (rule complete_keyword_loop)
    show ?thesis
      using s Returned Cons.IH by (auto simp: x split: outcome.splits)
  qed
qed

lemma complete_assign_remaining:
  "complete (fst st) \<Longrightarrow> complete (dict_of (assign_remaining st))"
  by (cases st) (auto simp: assign_remaining_def Let_def split: option.splits if_splits)

lemma complete_assign_codes:
  "complete info \<Longrightarrow> complete (dict_of (assign_codes codes info))"
  by (auto simp: assign_codes_def Let_def split: option.splits if_splits)

lemma complete_extract_company_info:
  assumes "complete info"
  shows "complete (dict_of (extract_company_info U text info))"
proof -
  let ?lines = "split_nl text"
  let ?r = "line_loop ?lines (enumerate 0 ?lines)
              (info, find_companies company_patterns text [])"
  have l: "complete (roles_dict_of ?r)" using assms by (simp add: complete_line_loop)
  show ?thesis
  proof (cases ?r)
    case (Raised e d)
    with l show ?thesis by (simp add: extract_company_info_def Let_def)
  next
    case (Returned st)
    with l have "complete (fst st)" by simp
    then have a: "complete (dict_of (assign_remaining st))" by (rule complete_assign_remaining)
    show ?thesis
      using a Returned
      by (auto simp: extract_company_info_def Let_def complete_assign_codes
          split: outcome.splits)
  qed
qed

lemma complete_tax_loop: "complete info \<Longrightarrow> complete (tax_loop xs info)"
  by (induction xs) auto

lemma complete_classify:
  "complete info \<Longrightarrow> complete (dict_of (classify_amounts pool info))"
  by (auto simp: classify_amounts_def Let_def complete_tax_loop split: option.splits)

lemma complete_apply_specific:
  "complete info \<Longrightarrow> complete (dict_of (apply_specific found info))"
  by (auto simp: apply_specific_def Let_def split: option.splits if_splits)

lemma complete_extract_amount_info:
  assumes "complete info"
  shows "complete (dict_of (extract_amount_info U text info))"
proof -
  have c: "complete (dict_of (classify_amounts (amount_pool U text) info))"
    using assms by (rule complete_classify)
  show ?thesis
    using c by (auto simp: extract_amount_info_def complete_apply_specific
        split: outcome.splits option.splits)
qed

lemma complete_item_loop: "complete info \<Longrightarrow> complete (item_loop U ls info)"
  by (induction ls) auto

lemma complete_issuer_loop: "complete info \<Longrightarrow> complete (issuer_loop U ls info)"
  by (induction ls) auto

lemma complete_spec_loop: "complete info \<Longrightarrow> complete (spec_loop ks text info)"
  by (induction ks) auto

lemma complete_name_loop:
  "complete info \<Longrightarrow> complete (dict_of (name_loop ps text info))"
  by (induction ps arbitrary: info) (auto simp: Let_def split: option.splits)

lemma complete_extract_other_fields:
  assumes "complete info"
  shows "complete (dict_of (extract_other_fields U text info))"
proof -
  let ?i2 = "issuer_loop U (split_nl text) (item_loop U (split_nl text) info)"
  have c2: "complete ?i2" using assms by (simp add: complete_item_loop complete_issuer_loop)
  have n: "complete (dict_of (name_loop (name_patterns U) text ?i2))"
    using c2 by (rule complete_name_loop)
  show ?thesis
    using c2 n
    by (auto simp: extract_other_fields_def Let_def complete_spec_loop
        split: option.splits outcome.splits)
qed

lemma parse_generic_returns:
  assumes "complete info"
  shows "\<exists>d. parse_generic_invoice U text info = Returned d \<and> complete d"
proof -
  have c1: "complete (dict_of (extract_invoice_number U text info))"
    using assms by (simp add: extract_invoice_number_def complete_number_loop)
  have c2: "complete (dict_of (extract_invoice_date U text d))" if "complete d" for d
    using that by (simp add: extract_invoice_date_def complete_date_loop)
  note c3 = complete_extract_company_info
  note c4 = complete_extract_amount_info
  note c5 = complete_extract_other_fields
  show ?thesis
    unfolding parse_generic_invoice_def
    using c1 c2 c3 c4 c5
    by (auto split: outcome.splits) (metis dict_of.simps)+
qed

text \<open>
  The loop of \<open>parse_shanghai_invoice\<close> stands outside the \<open>try\<close>; it reads a key that
  a complete dictionary has and lines within the range, so it does not raise.
\<close>

lemma shanghai_near_returns:
  assumes "complete info" and "\<forall>j \<in> set js. j < length lines"
  shows "\<exists>d. shanghai_near U lines js info = Returned d \<and> complete d"
  using assms
proof (induction js arbitrary: info)
  case Nil
  then show ?case by simp
next
  case (Cons j js)
  from complete_lookup [OF Cons.prems(1), of k_number]
  obtain v where v: "map_of info k_number = Some v" by auto
  have j: "j < length lines" and js: "\<forall>j \<in> set js. j < length lines"
    using Cons.prems(2) by simp_all
  have step: "\<exists>d. shanghai_near U lines js info' = Returned d \<and> complete d"
    if "complete info'" for info'
    using that js by (rule Cons.IH)
  show ?case
    using j v step [OF Cons.prems(1)]
      step [OF complete_update [OF Cons.prems(1) invoice_keys_mem(1)]]
    by (auto split: option.splits)
qed

lemma shanghai_loop_returns:
  assumes "complete info"
  shows "\<exists>d. shanghai_loop U lines xs info = Returned d \<and> complete d"
  using assms
proof (induction xs arbitrary: info)
  case Nil
  then show ?case by simp
next
  case (Cons x xs)
  obtain i line where x: "x = (i, line)" by (cases x)
  let ?js = "[nat (max 0 (int i - 2)) ..< min (length lines) (i + 3)]"
  have "\<forall>j \<in> set ?js. j < length lines" by simp
  from shanghai_near_returns [OF Cons.prems this]
  obtain d where d: "shanghai_near U lines ?js info = Returned d" "complete d" by blast
  show ?case
    using d Cons.IH [OF d(2)] Cons.IH [OF Cons.prems] by (simp add: x)
qed

lemma parse_invoice_info_returns:
  "\<exists>d. parse_invoice_info U text = Returned d \<and> complete d"
proof -
  note g = parse_generic_returns
  have s: "\<exists>d. parse_shanghai_invoice U text empty_info = Returned d \<and> complete d"
  proof -
    from shanghai_loop_returns [OF complete_empty_info]
    obtain d where d:
      "shanghai_loop U (split_nl text) (enumerate 0 (split_nl text))
         empty_info = Returned d" "complete d"
      by blast
    with g [OF d(2)] show ?thesis by (simp add: parse_shanghai_invoice_def Let_def)
  qed
  show ?thesis
    using s g [OF complete_empty_info]
    by (cases "detect_invoice_type text")
       (simp_all add: parse_invoice_info_def parse_standard_invoice_def
          parse_complex_invoice_def Let_def flip: empty_info_def)
qed

text \<open>
  C9. For every input text, and whatever the character tables of the runtime are,
  \<open>parse_invoice_info\<close> returns (it does not raise), and the dictionary it returns has
  exactly the eleven field names as its keys, in the order of their creation.
\<close>

theorem C9_parse_returns_all_fields:
  "\<exists>d. parse_invoice_info U text = Returned d \<and> map fst d = invoice_keys
       \<and> length invoice_keys = 11 \<and> distinct invoice_keys"
proof -
  from parse_invoice_info_returns obtain d where
    "parse_invoice_info U text = Returned d" "complete d" by blast
  moreover have "length invoice_keys = 11" by (simp add: invoice_keys_def)
  moreover have "distinct invoice_keys"
    by (simp add: invoice_keys_def k_number_def k_date_def k_buyer_def k_buyer_code_def
        k_seller_def k_seller_code_def k_item_def k_spec_def k_tax_def k_total_def k_issuer_def)
  ultimately show ?thesis by (auto simp: complete_def)
qed

subsection \<open>The batch loop\<close>




subsection \<open>The identifier extractor\<close>

lemma first_in_bounds_filter:
  "first_in_bounds ms
     = (case filter (\<lambda>m. 8 \<le> length m \<and> length m \<le> 20) ms of [] \<Rightarrow> None | m # _ \<Rightarrow> Some m)"
  by (induction ms) simp_all

lemma number_loop_first:
  "number_loop ps text info
     = (case filter (\<lambda>m. 8 \<le> length m \<and> length m \<le> 20)
               (concat (map (\<lambda>p. re_findall p text) ps)) of
          [] \<Rightarrow> info
        | m # _ \<Rightarrow> AList.update k_number m info)"
  by (induction ps) (simp_all add: first_in_bounds_filter split: list.splits)

text \<open>
  C8. \<open>extract_invoice_number\<close> sets the number to the first match of 8 to 20 characters,
  where the matches are taken pattern by pattern in the order of the list (the three
  labelled patterns, then the bare run of digits) and within a pattern from left to right;
  without such a match the dictionary is unchanged. On the text with the labelled number
  \<open>12345678901\<close> the number is \<open>12345678901\<close>; on the text with only a bare run of
  ten digits the number is that run; and a labelled number wins over a bare run that
  stands before it in the text.
\<close>

theorem C8_first_match_in_bounds:
  "extract_invoice_number U text info
     = Returned (case filter (\<lambda>m. 8 \<le> length m \<and> length m \<le> 20)
                        (concat (map (\<lambda>p. re_findall p text) (number_patterns U))) of
                   [] \<Rightarrow> info
                 | m # _ \<Rightarrow> AList.update k_number m info)
   \<and> extract_invoice_number ucd_examples ex_labelled_number empty_info
       = Returned (AList.update k_number
                     [0x31, 0x32, 0x33, 0x34, 0x35, 0x36, 0x37, 0x38, 0x39, 0x30, 0x31] empty_info)
   \<and> extract_invoice_number ucd_examples ex_bare_number empty_info
       = Returned (AList.update k_number
                     [0x31, 0x32, 0x33, 0x34, 0x35, 0x36, 0x37, 0x38, 0x39, 0x30] empty_info)
   \<and> extract_invoice_number ucd_examples ex_bare_before_label empty_info
       = Returned (AList.update k_number
                     [0x31, 0x32, 0x33, 0x34, 0x35, 0x36, 0x37, 0x38, 0x39, 0x30, 0x31] empty_info)"
proof -
  have "extract_invoice_number ucd_examples ex_labelled_number empty_info
       = Returned (AList.update k_number
                     [0x31, 0x32, 0x33, 0x34, 0x35, 0x36, 0x37, 0x38, 0x39, 0x30, 0x31] empty_info)"
    by code_simp
  moreover have "extract_invoice_number ucd_examples ex_bare_number empty_info
       = Returned (AList.update k_number
                     [0x31, 0x32, 0x33, 0x34, 0x35, 0x36, 0x37, 0x38, 0x39, 0x30] empty_info)"
    by code_simp
  moreover have "extract_invoice_number ucd_examples ex_bare_before_label empty_info
       = Returned (AList.update k_number
                     [0x31, 0x32, 0x33, 0x34, 0x35, 0x36, 0x37, 0x38, 0x39, 0x30, 0x31] empty_info)"
    by code_simp
  ultimately show ?thesis
    by (simp add: extract_invoice_number_def number_loop_first)
qed

subsection \<open>The date extractor\<close>

text \<open>
  The first two date patterns have the same group, and the second has a label before it:
  where the second matches, the first matches too. So the second pattern never decides the
  date.
\<close>

lemma match_at_group_alone:
  assumes "match_at (pre, g) s \<noteq> None"
  shows "\<exists>s1. suffix s1 s \<and> match_at ([], g) s1 \<noteq> None"
proof -
  from assms obtain s1 where s1: "s1 \<in> set (amatch pre s)" "amatch g s1 \<noteq> []"
    by (auto simp: match_at_def first_group_None_iff)
  from s1(1) have "suffix s1 s" by (rule amatch_suffix)
  moreover from s1(2) have "match_at ([], g) s1 \<noteq> None"
    by (simp add: match_at_whole split: list.splits)
  ultimately show ?thesis by blast
qed

lemma re_search_group_alone:
  assumes "re_search (pre, g) s \<noteq> None"
  shows "re_search ([], g) s \<noteq> None"
proof -
  from assms obtain t where t: "suffix t s" "match_at (pre, g) t \<noteq> None"
    by (auto simp: re_search_None_iff)
  from match_at_group_alone [OF t(2)] obtain s1 where
    "suffix s1 t" "match_at ([], g) s1 \<noteq> None" by blast
  with t(1) show ?thesis
    by (auto simp: re_search_None_iff intro: suffix_order.trans)
qed

lemma date_loop_skips_labelled:
  "date_loop (([], g) # (pre, g) # ps) text info = date_loop (([], g) # ps) text info"
proof (cases "re_search ([], g) text")
  case (Some a)
  then show ?thesis by simp
next
  case None
  then have "re_search (pre, g) text = None"
    using re_search_group_alone [of pre g "text"]
    by (cases "re_search (pre, g) text") auto
  with None show ?thesis by simp
qed

lemma labelled_date_pattern_unreachable:
  "extract_invoice_date U text info
     = Returned (date_loop (hd (date_patterns U) # drop 2 (date_patterns U)) text info)"
  by (simp add: extract_invoice_date_def date_patterns_def date_loop_skips_labelled
      del: date_loop.simps)

text \<open>
  C7. The specification has the date extractor try the labelled date pattern before the
  bare one, so that a labelled date wins over an unlabelled date that stands earlier in
  the text. The list \<open>patterns\<close> of \<open>extract_invoice_date\<close> has the bare pattern
  first and the labelled pattern second: on \<open>ex_two_dates\<close> the function returns the
  unlabelled date of the first line, \<open>2023y1m1d\<close>, and not the labelled date
  \<open>2024y3m5d\<close> of the second line. The date is returned as printed, as the second
  example shows. On every text the result is the same as without the labelled pattern.
\<close>

theorem C7_bare_date_pattern_first:
  "extract_invoice_date ucd_examples ex_two_dates empty_info
     = Returned (AList.update k_date [0x32, 0x30, 0x32, 0x33, 0x5e74, 0x31, 0x6708, 0x31, 0x65e5]
                   empty_info)
   \<and> extract_invoice_date ucd_examples ex_one_date empty_info
     = Returned (AList.update k_date ex_one_date empty_info)
   \<and> extract_invoice_date U text info
     = Returned (date_loop (hd (date_patterns U) # drop 2 (date_patterns U)) text info)"
proof -
  have "extract_invoice_date ucd_examples ex_two_dates empty_info
     = Returned (AList.update k_date [0x32, 0x30, 0x32, 0x33, 0x5e74, 0x31, 0x6708, 0x31, 0x65e5]
                   empty_info)"
    by code_simp
  moreover have "extract_invoice_date ucd_examples ex_one_date empty_info
     = Returned (AList.update k_date ex_one_date empty_info)"
    by code_simp
  ultimately show ?thesis
    using labelled_date_pattern_unreachable [of U "text" info] by simp
qed

subsection \<open>The issuer\<close>

lemma first_name_Some:
  "first_name ms = Some m \<Longrightarrow> 2 \<le> length m \<and> length m \<le> 4 \<and> m \<in> set ms"
  by (induction ms) (auto split: if_splits)

lemma first_name_None: "first_name ms = None \<longleftrightarrow> (\<forall>m \<in> set ms. \<not> (2 \<le> length m \<and> length m \<le> 4))"
  by (induction ms) auto

lemma name_loop_fallback:
  assumes "map_of info k_issuer = Some []"
  shows "name_loop ps text info
           = Returned (case List.map_filter (\<lambda>p. first_name (re_findall p text)) ps of
                         [] \<Rightarrow> info
                       | m # _ \<Rightarrow> AList.update k_issuer m info)"
  using assms
proof (induction ps)
  case Nil
  show ?case by (simp add: List.map_filter_simps)
next
  case (Cons p ps)
  show ?case
  proof (cases "first_name (re_findall p text)")
    case None
    with Cons show ?thesis by (simp add: List.map_filter_simps)
  next
    case (Some m)
    then have "m \<noteq> []" using first_name_Some [OF Some] by auto
    with Some show ?thesis by (simp add: List.map_filter_simps map_of_update)
  qed
qed

lemma item_loop_issuer: "map_of (item_loop U ls info) k_issuer = map_of info k_issuer"
  by (induction ls) (simp_all add: map_of_update)

lemma spec_loop_issuer: "map_of (spec_loop ks text info) k_issuer = map_of info k_issuer"
  by (induction ks) (simp_all add: map_of_update)

lemma issuer_loop_none:
  "\<not> list_ex (\<lambda>line. name_line (strip U line)) ls \<Longrightarrow> issuer_loop U ls info = info"
  by (induction ls) simp_all

lemma extract_other_fields_fallback:
  assumes "\<not> list_ex (\<lambda>line. name_line (strip U line)) (split_nl text)"
    and "map_of info k_issuer = Some []"
  shows "\<exists>d. extract_other_fields U text info = Returned d
           \<and> map_of d k_issuer = Some (fallback_name U text)"
proof -
  let ?i1 = "item_loop U (split_nl text) info"
  have i1: "map_of ?i1 k_issuer = Some []" using assms(2) by (simp add: item_loop_issuer)
  have i2: "issuer_loop U (split_nl text) ?i1 = ?i1" using assms(1) by (rule issuer_loop_none)
  show ?thesis
    using i1
    by (auto simp: extract_other_fields_def Let_def i2 name_loop_fallback [OF i1]
        fallback_name_def spec_loop_issuer map_of_update split: list.splits)
qed

text \<open>
  The third fallback pattern matches wherever two adjacent characters of
  \<open>[\u4e00-\u9fa5]\<close> stand, and each of the three patterns needs such a character where
  it matches.
\<close>

lemma match_at_cjk23:
  "match_at ([], [Cls cjk 2 (Some 3)]) s
     = (if 2 \<le> length (takeWhile cjk s)
        then Some (take (min (length (takeWhile cjk s)) 3) s,
                   drop (min (length (takeWhile cjk s)) 3) s)
        else None)"
proof -
  let ?n = "length (takeWhile cjk s)"
  have n: "?n \<le> length s" by (rule length_takeWhile_le)
  show ?thesis
  proof (cases "2 \<le> ?n")
    case False
    then have "[2 ..< Suc (min ?n 3)] = []" by simp
    with False show ?thesis
      by (simp add: match_at_whole amatch_cls_only del: amatch.simps upt_Suc)
  next
    case True
    then have "[2 ..< Suc (min ?n 3)] = [2 ..< min ?n 3] @ [min ?n 3]" by simp
    with True n show ?thesis
      by (simp add: match_at_whole amatch_cls_only del: amatch.simps upt_Suc)
  qed
qed

lemma cjk_pair_suffix:
  "cjk_pair s \<Longrightarrow> \<exists>t. suffix t s \<and> 2 \<le> length (takeWhile cjk t)"
proof (induction s rule: cjk_pair.induct)
  case (1 a b cs)
  show ?case
  proof (cases "cjk a \<and> cjk b")
    case True
    then have "2 \<le> length (takeWhile cjk (a # b # cs))" by simp
    then show ?thesis by blast
  next
    case False
    with "1.prems" have "cjk_pair (b # cs)" by simp
    with "1.IH" False obtain t where "suffix t (b # cs)" "2 \<le> length (takeWhile cjk t)"
      by blast
    then show ?thesis by (blast intro: suffix_ConsI)
  qed
qed simp_all

lemma findall_cjk23_lengths:
  assumes "m \<in> set (re_findall ([], [Cls cjk 2 (Some 3)]) s)"
  shows "2 \<le> length m \<and> length m \<le> 4"
proof -
  from re_findall_elem [OF assms] obtain t r where
    t: "match_at ([], [Cls cjk 2 (Some 3)]) t = Some (m, r)" by blast
  have "length (takeWhile cjk t) \<le> length t" by (rule length_takeWhile_le)
  with t show ?thesis by (auto simp: match_at_cjk23 split: if_splits)
qed

lemma first_name_cjk_pair:
  assumes "cjk_pair text"
  shows "first_name (re_findall ([], [Cls cjk 2 (Some 3)]) text) \<noteq> None"
proof -
  from cjk_pair_suffix [OF assms] obtain t where
    t: "suffix t text" "2 \<le> length (takeWhile cjk t)" by blast
  then have "match_at ([], [Cls cjk 2 (Some 3)]) t \<noteq> None" by (simp add: match_at_cjk23)
  with t(1) have "re_findall ([], [Cls cjk 2 (Some 3)]) text \<noteq> []"
    by (rule re_findall_nonempty)
  then obtain m where "m \<in> set (re_findall ([], [Cls cjk 2 (Some 3)]) text)"
    by (cases "re_findall ([], [Cls cjk 2 (Some 3)]) text") auto
  with findall_cjk23_lengths [OF this] show ?thesis
    by (auto simp: first_name_None)
qed

lemma map_filter_hd:
  "List.map_filter f ps = h # rest \<Longrightarrow> \<exists>p \<in> set ps. f p = Some h"
proof (induction ps)
  case Nil
  then show ?case by (simp add: List.map_filter_simps)
next
  case (Cons p ps)
  then show ?case by (cases "f p") (auto simp: List.map_filter_simps)
qed

lemma map_filter_Nil:
  "List.map_filter f ps = [] \<longleftrightarrow> (\<forall>p \<in> set ps. f p = None)"
proof (induction ps)
  case Nil
  show ?case by (simp add: List.map_filter_simps)
next
  case (Cons p ps)
  then show ?case by (cases "f p") (auto simp: List.map_filter_simps)
qed

lemma fallback_name_cjk_pair:
  assumes "cjk_pair text"
  shows "fallback_name U text \<noteq> []"
proof -
  let ?f = "\<lambda>p. first_name (re_findall p text)"
  have "?f ([], [Cls cjk 2 (Some 3)]) \<noteq> None" using assms by (rule first_name_cjk_pair)
  moreover have "([], [Cls cjk 2 (Some 3)]) \<in> set (name_patterns U)"
    by (simp add: name_patterns_def)
  ultimately have "List.map_filter ?f (name_patterns U) \<noteq> []"
    by (auto simp: map_filter_Nil)
  then obtain h rest where hr: "List.map_filter ?f (name_patterns U) = h # rest"
    by (cases "List.map_filter ?f (name_patterns U)") auto
  from map_filter_hd [OF this] obtain p where "?f p = Some h" by blast
  then have "h \<noteq> []" by (auto dest: first_name_Some)
  with hr show ?thesis by (simp add: fallback_name_def)
qed

lemma name_pattern_needs_cjk:
  assumes "p \<in> set (name_patterns U)" and "match_at p t \<noteq> None"
  shows "t \<noteq> [] \<and> cjk (hd t)"
proof -
  have c: "cjk 0x5f20" by (simp add: cjk_def)
  from assms(1) consider
    "p = ([], lit [0x5f20, 0x82f1, 0x8c6a])"
    | "p = ([], lit [0x5f20] @ [Cls (word U) 1 None])"
    | "p = ([], [Cls cjk 2 (Some 3)])"
    by (auto simp: name_patterns_def)
  then show ?thesis
  proof cases
    case 1
    with assms(2) have "prefix [0x5f20, 0x82f1, 0x8c6a] t"
      by (auto simp: match_at_whole amatch_lit_only split: if_splits)
    with c show ?thesis by (cases t) auto
  next
    case 2
    with assms(2) have "prefix [0x5f20] t"
      by (auto simp: match_at_whole amatch_lit simp del: amatch.simps split: if_splits)
    with c show ?thesis by (cases t) auto
  next
    case 3
    with assms(2) have "2 \<le> length (takeWhile cjk t)"
      by (auto simp: match_at_cjk23 split: if_splits)
    then show ?thesis by (cases t) (auto split: if_splits)
  qed
qed

lemma fallback_name_no_cjk:
  assumes "\<not> list_ex cjk text"
  shows "fallback_name U text = []"
proof -
  have "re_findall p text = []" if p: "p \<in> set (name_patterns U)" for p
  proof (rule re_findall_Nil)
    fix t assume t: "suffix t text"
    show "match_at p t = None"
    proof (rule ccontr)
      assume "match_at p t \<noteq> None"
      from name_pattern_needs_cjk [OF p this] have "t \<noteq> []" "cjk (hd t)" by simp_all
      moreover have "set t \<subseteq> set text" using t by (rule set_mono_suffix)
      ultimately have "\<exists>x \<in> set text. cjk x" by (cases t) auto
      with assms show False by (simp add: list_ex_iff)
    qed
  qed
  then have "List.map_filter (\<lambda>p. first_name (re_findall p text)) (name_patterns U) = []"
    by (simp add: map_filter_Nil)
  then show ?thesis by (simp add: fallback_name_def)
qed

text \<open>
  The first fallback pattern is a literal: all its matches are the literal itself, so a
  text that contains it gets it as the fallback name, wherever it stands.
\<close>

lemma findall_literal:
  assumes "sublist w text" and "w \<noteq> []"
  shows "re_findall ([], lit w) text \<noteq> [] \<and> (\<forall>m \<in> set (re_findall ([], lit w) text). m = w)"
proof -
  from assms(1) obtain t where t: "suffix t text" "prefix w t"
    by (auto simp: sublist_altdef')
  from t(2) have "match_at ([], lit w) t \<noteq> None"
    by (simp add: match_at_whole amatch_lit_only)
  with t(1) have ne: "re_findall ([], lit w) text \<noteq> []" by (rule re_findall_nonempty)
  have "m = w" if "m \<in> set (re_findall ([], lit w) text)" for m
  proof -
    from re_findall_elem [OF that] obtain t' r where
      m: "match_at ([], lit w) t' = Some (m, r)" by blast
    then have p: "prefix w t'" and mm: "m = take (length t' - length (drop (length w) t')) t'"
      by (auto simp: match_at_whole amatch_lit_only split: if_splits)
    from p obtain z where "t' = w @ z" by (auto simp: prefix_def)
    with mm show ?thesis by simp
  qed
  with ne show ?thesis by blast
qed

lemma fallback_name_literal:
  assumes "sublist [0x5f20, 0x82f1, 0x8c6a] text"
  shows "fallback_name U text = [0x5f20, 0x82f1, 0x8c6a]"
proof -
  let ?w = "[0x5f20, 0x82f1, 0x8c6a] :: ustring"
  from findall_literal [OF assms] have ne: "re_findall ([], lit ?w) text \<noteq> []"
    and all: "\<forall>m \<in> set (re_findall ([], lit ?w) text). m = ?w" by simp_all
  from ne obtain m ms where ms: "re_findall ([], lit ?w) text = m # ms"
    by (cases "re_findall ([], lit ?w) text") auto
  with all have "m = ?w" by simp
  with ms have "first_name (re_findall ([], lit ?w) text) = Some ?w" by simp
  then show ?thesis
    by (simp add: fallback_name_def name_patterns_def List.map_filter_simps)
qed

text \<open>
  C6. The specification leaves the issuer empty when no line is a name (a run of two to
  four characters of \<open>[\u4e00-\u9fa5]\<close> that passes the exclusion list). The function
  has a fallback for this case (under the comment that it then looks for a concrete name):
  it searches the whole text with three patterns. What holds: for every text without a
  line that is a name, and with the issuer empty before the call, the issuer is the
  fallback name: the first match of two to four characters of the first of the three
  patterns that has one. So it is the literal name U+5F20 U+82F1 U+8C6A of the first
  pattern whenever the text contains it. The issuer is left empty only when no pattern has
  such a match; it is never left empty when the text has two adjacent characters of
  \<open>[\u4e00-\u9fa5]\<close>, and always when the text has no such character.
\<close>

theorem C6_issuer_falls_back_to_text_search:
  assumes "\<not> list_ex (\<lambda>line. name_line (strip U line)) (split_nl text)"
    and "map_of info k_issuer = Some []"
  shows "\<exists>d. extract_other_fields U text info = Returned d
           \<and> map_of d k_issuer = Some (fallback_name U text)
           \<and> (sublist [0x5f20, 0x82f1, 0x8c6a] text
                \<longrightarrow> fallback_name U text = [0x5f20, 0x82f1, 0x8c6a])
           \<and> (cjk_pair text \<longrightarrow> fallback_name U text \<noteq> [])
           \<and> (\<not> list_ex cjk text \<longrightarrow> fallback_name U text = [])"
  using extract_other_fields_fallback [OF assms] fallback_name_literal [of "text" U]
    fallback_name_cjk_pair [of "text" U] fallback_name_no_cjk [of "text" U]
  by blast

text \<open>
  The theorem at four texts. On \<open>ex_issuer_literal\<close> the literal name of the first
  pattern is the issuer, although the third pattern matches the label before it. On
  \<open>ex_issuer_surname\<close> the first pattern has no match and the second gives its match,
  although the third pattern matches earlier in the text. On \<open>ex_issuer_long\<close> the
  only match of the second pattern has seven characters and is passed over, so the third
  pattern gives its first match, the first three characters. On \<open>ex_no_name\<close>, a text
  without any character of \<open>[\u4e00-\u9fa5]\<close>, the issuer stays empty.
\<close>

theorem C6_fallback_witness:
  "\<not> list_ex (\<lambda>line. name_line (strip ucd_examples line)) (split_nl ex_issuer_literal)
   \<and> map_of empty_info k_issuer = Some []
   \<and> sublist [0x5f20, 0x82f1, 0x8c6a] ex_issuer_literal
   \<and> (\<exists>d. extract_other_fields ucd_examples ex_issuer_literal empty_info = Returned d
           \<and> map_of d k_issuer = Some [0x5f20, 0x82f1, 0x8c6a])
   \<and> \<not> list_ex (\<lambda>line. name_line (strip ucd_examples line)) (split_nl ex_issuer_surname)
   \<and> fallback_name ucd_examples ex_issuer_surname = [0x5f20, 0x4e09]
   \<and> (\<exists>d. extract_other_fields ucd_examples ex_issuer_surname empty_info = Returned d
           \<and> map_of d k_issuer = Some [0x5f20, 0x4e09])
   \<and> \<not> list_ex (\<lambda>line. name_line (strip ucd_examples line)) (split_nl ex_issuer_long)
   \<and> fallback_name ucd_examples ex_issuer_long = [0x5f20, 0x4e09, 0x4e30]
   \<and> (\<exists>d. extract_other_fields ucd_examples ex_issuer_long empty_info = Returned d
           \<and> map_of d k_issuer = Some [0x5f20, 0x4e09, 0x4e30])
   \<and> \<not> list_ex (\<lambda>line. name_line (strip ucd_examples line)) (split_nl ex_no_name)
   \<and> \<not> list_ex cjk ex_no_name
   \<and> (\<exists>d. extract_other_fields ucd_examples ex_no_name empty_info = Returned d
           \<and> map_of d k_issuer = Some [])"
proof -
  have e: "map_of empty_info k_issuer = Some []" by code_simp
  have a1: "\<not> list_ex (\<lambda>line. name_line (strip ucd_examples line)) (split_nl ex_issuer_literal)"
    by code_simp
  have a2: "sublist [0x5f20, 0x82f1, 0x8c6a] ex_issuer_literal" by code_simp
  have b1: "\<not> list_ex (\<lambda>line. name_line (strip ucd_examples line)) (split_nl ex_issuer_surname)"
    by code_simp
  have b2: "fallback_name ucd_examples ex_issuer_surname = [0x5f20, 0x4e09]" by code_simp
  have c1: "\<not> list_ex (\<lambda>line. name_line (strip ucd_examples line)) (split_nl ex_issuer_long)"
    by code_simp
  have c2: "fallback_name ucd_examples ex_issuer_long = [0x5f20, 0x4e09, 0x4e30]" by code_simp
  have d1: "\<not> list_ex (\<lambda>line. name_line (strip ucd_examples line)) (split_nl ex_no_name)"
    by code_simp
  have d2: "\<not> list_ex cjk ex_no_name" by code_simp
  from C6_issuer_falls_back_to_text_search [OF a1 e] a2
  have a: "\<exists>d. extract_other_fields ucd_examples ex_issuer_literal empty_info = Returned d
           \<and> map_of d k_issuer = Some [0x5f20, 0x82f1, 0x8c6a]" by auto
  from C6_issuer_falls_back_to_text_search [OF b1 e] b2
  have b: "\<exists>d. extract_other_fields ucd_examples ex_issuer_surname empty_info = Returned d
           \<and> map_of d k_issuer = Some [0x5f20, 0x4e09]" by auto
  from C6_issuer_falls_back_to_text_search [OF c1 e] c2
  have c: "\<exists>d. extract_other_fields ucd_examples ex_issuer_long empty_info = Returned d
           \<and> map_of d k_issuer = Some [0x5f20, 0x4e09, 0x4e30]" by auto
  from C6_issuer_falls_back_to_text_search [OF d1 e] d2
  have d: "\<exists>d. extract_other_fields ucd_examples ex_no_name empty_info = Returned d
           \<and> map_of d k_issuer = Some []" by auto
  from e a1 a2 a b1 b2 b c1 c2 c d1 d2 d show ?thesis by blast
qed

text \<open>
  The claim C6 as stated fails on \<open>ex_label_line\<close>: the only line is an excluded word,
  so no line is a name, and the fallback makes this very word the issuer.
\<close>

theorem C6_counterexample:
  "\<not> (\<not> list_ex (\<lambda>line. name_line (strip ucd_examples line)) (split_nl ex_label_line)
        \<longrightarrow> map_of (dict_of (extract_other_fields ucd_examples ex_label_line empty_info))
              k_issuer = Some [])"
  by code_simp

subsection \<open>The party extractor\<close>

text \<open>
  C4. The specification has the seller receive the second of two company names when a
  buyer keyword assigns the first name to the buyer and there is no seller keyword. On
  \<open>ex_buyer_keyword\<close> the buyer keyword assigns \<open>company_a\<close> to the buyer and removes
  it from \<open>companies\<close>; \<open>company_b\<close> is then the only remaining company, and the
  fallback gives the seller \<open>remaining_companies[1]\<close> only, which does not exist: the
  seller stays empty and \<open>company_b\<close> is assigned to no role.
\<close>

theorem C4_seller_stays_empty:
  "extract_company_info ucd_examples ex_buyer_keyword empty_info
     = Returned (AList.update k_buyer company_a empty_info)"
  by code_simp

text \<open>
  A line without a keyword of a role leaves the state as it is. So the single pass over
  the lines is the buyer pass followed by the seller pass as long as no line with a
  seller keyword comes before a line with a buyer keyword.
\<close>

lemma keyword_loop_skip:
  "\<not> has_keyword kws line \<Longrightarrow> keyword_loop r lines i line kws st = Returned st"
  by (induction kws) (simp_all add: has_keyword_def)

lemma no_buyer_lines:
  assumes "\<not> list_ex (has_keyword buyer_keywords) (map snd xs)"
  shows "role_pass Buyer buyer_keywords lines xs st = Returned st
         \<and> line_loop lines xs st = role_pass Seller seller_keywords lines xs st"
  using assms
proof (induction xs arbitrary: st)
  case Nil
  show ?case by simp
next
  case (Cons x xs)
  obtain i line where x: "x = (i, line)" by (cases x)
  from Cons.prems have nb: "\<not> has_keyword buyer_keywords line"
    and rest: "\<not> list_ex (has_keyword buyer_keywords) (map snd xs)"
    by (simp_all add: x)
  note IH = Cons.IH [OF rest]
  show ?case
    by (cases "keyword_loop Seller lines i line seller_keywords st")
       (simp_all add: x keyword_loop_skip [OF nb] IH)
qed

lemma line_loop_two_pass:
  assumes "buyer_lines_first (map snd xs)"
  shows "line_loop lines xs st = spec_two_pass lines xs st"
  using assms
proof (induction xs arbitrary: st)
  case Nil
  show ?case by (simp add: spec_two_pass_def)
next
  case (Cons x xs)
  obtain i line where x: "x = (i, line)" by (cases x)
  from Cons.prems have ord: "buyer_lines_first (map snd xs)"
    and here: "\<not> has_keyword seller_keywords line
               \<or> \<not> list_ex (has_keyword buyer_keywords) (map snd xs)"
    by (simp_all add: x)
  note IH = Cons.IH [OF ord]
  show ?case
  proof (cases "has_keyword seller_keywords line")
    case False
    note skip = keyword_loop_skip [OF False]
    show ?thesis
    proof (cases "keyword_loop Buyer lines i line buyer_keywords st")
      case (Raised e d)
      then show ?thesis by (simp add: x spec_two_pass_def)
    next
      case (Returned st1)
      then show ?thesis
        using IH [of st1]
        by (cases "role_pass Buyer buyer_keywords lines xs st1")
           (simp_all add: x spec_two_pass_def skip)
    qed
  next
    case True
    with here have nb: "\<not> list_ex (has_keyword buyer_keywords) (map snd xs)" by simp
    note nbl = no_buyer_lines [OF nb]
    show ?thesis
    proof (cases "keyword_loop Buyer lines i line buyer_keywords st")
      case (Raised e d)
      then show ?thesis by (simp add: x spec_two_pass_def)
    next
      case (Returned st1)
      then show ?thesis
        by (cases "keyword_loop Seller lines i line seller_keywords st1")
           (simp_all add: x spec_two_pass_def nbl)
    qed
  qed
qed

text \<open>
  The loops keep the invariant \<open>pool_inv\<close>: the name that a role receives leaves the
  pool, so the other role cannot receive it.
\<close>

lemma pool_inv_roles_apart: "pool_inv st \<Longrightarrow> roles_apart (fst st)"
  by (simp add: pool_inv_def)

lemma pool_inv_claim:
  assumes "pool_inv (info, companies)" and "set cs \<subseteq> set companies"
  shows "(case claim r line_j cs (info, companies) of
            Returned st \<Rightarrow> pool_inv st
          | Raised e d \<Rightarrow> roles_apart d)"
  using assms(2)
proof (induction cs)
  case Nil
  show ?case using assms(1) by simp
next
  case (Cons c cs)
  then have c: "c \<in> set companies" and sub: "set cs \<subseteq> set companies" by simp_all
  note IH = Cons.IH [OF sub]
  have cne: "c \<noteq> []" using assms(1) c by (auto simp: pool_inv_def)
  have ra: "roles_apart info" using assms(1) by (simp add: pool_inv_def)
  show ?case
  proof (cases "sublist c line_j")
    case False
    with IH show ?thesis by simp
  next
    case True
    show ?thesis
    proof (cases "map_of info (role_key r)")
      case None
      with True ra show ?thesis by simp
    next
      case (Some v)
      show ?thesis
      proof (cases "v = []")
        case False
        with True Some IH show ?thesis by simp
      next
        case vempty: True
        have "pool_inv (AList.update (role_key r) c info, remove1 c companies)"
          using assms(1) c cne Some vempty
          by (cases r)
             (auto simp: pool_inv_def roles_apart_def map_of_update
               split: option.splits)
        with True Some vempty c show ?thesis by simp
      qed
    qed
  qed
qed

lemma pool_inv_near:
  assumes "pool_inv st"
  shows "(case near r lines js st of Returned st' \<Rightarrow> pool_inv st' | Raised e d \<Rightarrow> roles_apart d)"
  using assms
proof (induction js arbitrary: st)
  case Nil
  then show ?case by simp
next
  case (Cons j js)
  obtain info companies where st: "st = (info, companies)" by (cases st)
  have ra: "roles_apart info" using Cons.prems by (simp add: st pool_inv_def)
  have c: "(case claim r (lines ! j) companies (info, companies) of
              Returned st' \<Rightarrow> pool_inv st' | Raised e d \<Rightarrow> roles_apart d)"
    using Cons.prems by (intro pool_inv_claim) (simp_all add: st)
  show ?case
  proof (cases "j < length lines")
    case False
    with ra show ?thesis by (simp add: st)
  next
    case True
    show ?thesis
    proof (cases "claim r (lines ! j) companies (info, companies)")
      case (Raised e d)
      with c True show ?thesis by (simp add: st)
    next
      case (Returned st')
      with c have "pool_inv st'" by simp
      from Cons.IH [OF this] Returned True show ?thesis by (simp add: st)
    qed
  qed
qed

lemma pool_inv_keyword_loop:
  assumes "pool_inv st"
  shows "(case keyword_loop r lines i line kws st of
            Returned st' \<Rightarrow> pool_inv st' | Raised e d \<Rightarrow> roles_apart d)"
  using assms
proof (induction kws arbitrary: st)
  case Nil
  then show ?case by simp
next
  case (Cons kw kws)
  show ?case
  proof (cases "sublist kw line")
    case False
    with Cons show ?thesis by simp
  next
    case True
    note n = pool_inv_near [OF Cons.prems, of r lines "window i (length lines)"]
    show ?thesis
    proof (cases "near r lines (window i (length lines)) st")
      case (Raised e d)
      with n True show ?thesis by simp
    next
      case (Returned st1)
      with n have "pool_inv st1" by simp
      from Cons.IH [OF this] Returned True show ?thesis by simp
    qed
  qed
qed

lemma pool_inv_line_loop:
  assumes "pool_inv st"
  shows "(case line_loop lines xs st of Returned st' \<Rightarrow> pool_inv st' | Raised e d \<Rightarrow> roles_apart d)"
  using assms
proof (induction xs arbitrary: st)
  case Nil
  then show ?case by simp
next
  case (Cons x xs)
  obtain i line where x: "x = (i, line)" by (cases x)
  note b = pool_inv_keyword_loop [OF Cons.prems, of Buyer lines i line buyer_keywords]
  show ?case
  proof (cases "keyword_loop Buyer lines i line buyer_keywords st")
    case (Raised e d)
    with b show ?thesis by (simp add: x)
  next
    case (Returned st1)
    with b have i1: "pool_inv st1" by simp
    note s = pool_inv_keyword_loop [OF i1, of Seller lines i line seller_keywords]
    show ?thesis
    proof (cases "keyword_loop Seller lines i line seller_keywords st1")
      case Raised2: (Raised e d)
      with s Returned show ?thesis by (simp add: x)
    next
      case Returned2: (Returned st2)
      with s have "pool_inv st2" by simp
      from Cons.IH [OF this] Returned Returned2 show ?thesis by (simp add: x)
    qed
  qed
qed

lemma add_companies_inv:
  assumes "distinct acc" and "[] \<notin> set acc"
  shows "distinct (add_companies acc ms) \<and> [] \<notin> set (add_companies acc ms)"
  using assms
proof (induction ms arbitrary: acc)
  case Nil
  then show ?case by simp
next
  case (Cons m ms)
  let ?acc = "if length m > 5 \<and> m \<notin> set acc then acc @ [m] else acc"
  have "distinct ?acc" "[] \<notin> set ?acc" using Cons.prems by auto
  from Cons.IH [OF this] show ?case by simp
qed

lemma find_companies_inv:
  assumes "distinct acc" and "[] \<notin> set acc"
  shows "distinct (find_companies ps text acc) \<and> [] \<notin> set (find_companies ps text acc)"
  using assms
proof (induction ps arbitrary: acc)
  case Nil
  then show ?case by simp
next
  case (Cons p ps)
  from add_companies_inv [OF Cons.prems, of "re_findall p text"]
  have "distinct (add_companies acc (re_findall p text))"
    "[] \<notin> set (add_companies acc (re_findall p text))" by simp_all
  from Cons.IH [OF this] show ?case by simp
qed

lemma roles_apart_assign_remaining:
  assumes "pool_inv st"
  shows "roles_apart (dict_of (assign_remaining st))"
proof -
  obtain info cs where st: "st = (info, cs)" by (cases st)
  have d: "distinct cs" and ra: "roles_apart info"
    using assms by (simp_all add: st pool_inv_def)
  show ?thesis
  proof (cases "cs = []")
    case True
    with ra show ?thesis by (simp add: st assign_remaining_def)
  next
    case False
    show ?thesis
    proof (cases "map_of info k_buyer")
      case None
      with False ra show ?thesis by (simp add: st assign_remaining_def)
    next
      case b: (Some b)
      show ?thesis
      proof (cases "map_of info k_seller")
        case None
        with False b ra show ?thesis by (simp add: st assign_remaining_def)
      next
        case s: (Some s)
        let ?rem = "filter (\<lambda>c. c \<noteq> b \<and> c \<noteq> s) cs"
        show ?thesis
        proof (cases "?rem = []")
          case True
          with False b s ra show ?thesis by (simp add: st assign_remaining_def)
        next
          case rem: False
          have dr: "distinct ?rem" using d by simp
          have r0: "?rem ! 0 \<in> set ?rem" using rem by (simp add: nth_mem del: set_filter)
          then have r0s: "?rem ! 0 \<noteq> s" "?rem ! 0 \<noteq> b" by auto
          have r1: "?rem ! 1 \<noteq> ?rem ! 0 \<and> ?rem ! 1 \<noteq> b \<and> ?rem ! 1 \<noteq> s" if "1 < length ?rem"
          proof -
            have "?rem ! 1 \<in> set ?rem" using that by (simp add: nth_mem del: set_filter)
            moreover have "?rem ! 1 \<noteq> ?rem ! 0"
              using nth_eq_iff_index_eq [OF dr, of 1 0] that rem by simp
            ultimately show ?thesis by auto
          qed
          show ?thesis
            using False b s rem ra r0s r1
            by (auto simp: st assign_remaining_def Let_def roles_apart_def map_of_update)
        qed
      qed
    qed
  qed
qed

lemma roles_apart_assign_codes:
  assumes "roles_apart info"
  shows "roles_apart (dict_of (assign_codes codes info))"
  using assms
  by (auto simp: assign_codes_def Let_def roles_apart_def map_of_update
      split: option.splits if_splits)

lemma roles_apart_extract_company_info:
  assumes "map_of info k_buyer = Some []" and "map_of info k_seller = Some []"
  shows "roles_apart (dict_of (extract_company_info U text info))"
proof -
  let ?lines = "split_nl text"
  let ?cs = "find_companies company_patterns text []"
  from find_companies_inv [of "[]" company_patterns "text"]
  have cs: "distinct ?cs" "[] \<notin> set ?cs" by simp_all
  have inv: "pool_inv (info, ?cs)"
    using assms cs by (simp add: pool_inv_def roles_apart_def)
  note l = pool_inv_line_loop [OF inv, of ?lines "enumerate 0 ?lines"]
  show ?thesis
  proof (cases "line_loop ?lines (enumerate 0 ?lines) (info, ?cs)")
    case (Raised e d)
    with l show ?thesis by (simp add: extract_company_info_def Let_def)
  next
    case (Returned st)
    with l have "pool_inv st" by simp
    then have a: "roles_apart (dict_of (assign_remaining st))"
      by (rule roles_apart_assign_remaining)
    show ?thesis
    proof (cases "assign_remaining st")
      case Raised2: (Raised e d)
      with a Returned show ?thesis by (simp add: extract_company_info_def Let_def)
    next
      case Returned2: (Returned info1)
      with a have "roles_apart info1" by simp
      from roles_apart_assign_codes [OF this] Returned Returned2 show ?thesis
        by (simp add: extract_company_info_def Let_def)
    qed
  qed
qed

text \<open>
  C5. The specification has the role assignment run as two passes over the whole text, the
  buyer pass before the seller pass, so that the buyer keywords claim from the pool first
  even when a seller keyword stands on an earlier line. The function has one loop over the
  lines, and handles on each line the buyer keywords and then the seller keywords: a
  seller keyword on an earlier line claims before a buyer keyword on a later line. What
  holds: the single pass gives the result of the two passes for every text in which no
  line with a seller keyword comes before a line with a buyer keyword; and for every text,
  when both roles are empty before the call, the buyer and the seller are never the same
  name afterwards.
\<close>

theorem C5_single_pass_over_lines:
  "(buyer_lines_first (split_nl text)
      \<longrightarrow> line_loop (split_nl text) (enumerate 0 (split_nl text)) st
          = spec_two_pass (split_nl text) (enumerate 0 (split_nl text)) st)
   \<and> (map_of info k_buyer = Some [] \<and> map_of info k_seller = Some []
      \<longrightarrow> roles_apart (dict_of (extract_company_info U text info)))"
proof (intro conjI impI)
  assume "buyer_lines_first (split_nl text)"
  then have "buyer_lines_first (map snd (enumerate 0 (split_nl text)))" by simp
  then show "line_loop (split_nl text) (enumerate 0 (split_nl text)) st
          = spec_two_pass (split_nl text) (enumerate 0 (split_nl text)) st"
    by (rule line_loop_two_pass)
next
  assume "map_of info k_buyer = Some [] \<and> map_of info k_seller = Some []"
  then show "roles_apart (dict_of (extract_company_info U text info))"
    by (intro roles_apart_extract_company_info) simp_all
qed

text \<open>
  The theorem at \<open>ex_buyer_then_seller\<close>: the buyer keyword and \<open>company_a\<close> come
  before the seller keyword and \<open>company_b\<close>; each role receives its company.
\<close>

theorem C5_single_pass_witness:
  "buyer_lines_first (split_nl ex_buyer_then_seller)
   \<and> map_of empty_info k_buyer = Some [] \<and> map_of empty_info k_seller = Some []
   \<and> line_loop (split_nl ex_buyer_then_seller) (enumerate 0 (split_nl ex_buyer_then_seller))
        (empty_info, [company_a, company_b])
      = spec_two_pass (split_nl ex_buyer_then_seller)
          (enumerate 0 (split_nl ex_buyer_then_seller)) (empty_info, [company_a, company_b])
   \<and> roles_apart (dict_of (extract_company_info ucd_examples ex_buyer_then_seller empty_info))
   \<and> extract_company_info ucd_examples ex_buyer_then_seller empty_info
      = Returned (AList.update k_seller company_b (AList.update k_buyer company_a empty_info))"
proof -
  have h1: "buyer_lines_first (split_nl ex_buyer_then_seller)" by code_simp
  have h2: "map_of empty_info k_buyer = Some [] \<and> map_of empty_info k_seller = Some []"
    by code_simp
  have v: "extract_company_info ucd_examples ex_buyer_then_seller empty_info
      = Returned (AList.update k_seller company_b (AList.update k_buyer company_a empty_info))"
    by code_simp
  from C5_single_pass_over_lines
    [of ex_buyer_then_seller "(empty_info, [company_a, company_b])" empty_info ucd_examples]
    h1 h2 v
  show ?thesis by simp
qed

text \<open>
  The claim C5 as stated fails on \<open>ex_seller_keyword_first\<close>: the seller keyword of the
  first line claims \<open>company_a\<close> before the buyer keyword of the second line is
  reached; two passes would give \<open>company_a\<close> to the buyer.
\<close>

theorem C5_counterexample:
  "map_of (roles_dict_of
      (line_loop (split_nl ex_seller_keyword_first)
         (enumerate 0 (split_nl ex_seller_keyword_first)) (empty_info, [company_a]))) k_buyer
     = Some []
   \<and> map_of (roles_dict_of
      (line_loop (split_nl ex_seller_keyword_first)
         (enumerate 0 (split_nl ex_seller_keyword_first)) (empty_info, [company_a]))) k_seller
     = Some company_a
   \<and> map_of (roles_dict_of
      (spec_two_pass (split_nl ex_seller_keyword_first)
         (enumerate 0 (split_nl ex_seller_keyword_first)) (empty_info, [company_a]))) k_buyer
     = Some company_a
   \<and> find_companies company_patterns ex_seller_keyword_first [] = [company_a]
   \<and> extract_company_info ucd_examples ex_seller_keyword_first empty_info
     = Returned (AList.update k_seller company_a empty_info)"
  by code_simp

end
